theory Spec2Isabelle
  imports Main "HOL-Library.Word" "HOL-Library.Signed_Division"
begin

unbundle bit_operations_syntax

section \<open>Machine integers and failures\<close>

text \<open>
  The C++ types \<^verbatim>\<open>int\<close>, \<^verbatim>\<open>std::int32_t\<close> and \<^verbatim>\<open>std::uint32_t\<close> are 32-bit words;
  signedness is a matter of which operation reads the word (\<open>sint\<close>, \<open>signed_drop_bit\<close>,
  \<open><s\<close> for the signed reading). \<^verbatim>\<open>std::int16_t\<close> is a 16-bit word.
\<close>

type_synonym int16 = "16 word"
type_synonym int32 = "32 word"
type_synonym uint32 = "32 word"

text \<open>
  A call either returns (\<open>Inr\<close>), or stops at a failed \<^verbatim>\<open>assert\<close> (the assertions are
  compiled in), or leaves the behaviour that C++ defines: \<^verbatim>\<open>back()\<close> or \<^verbatim>\<open>pop_back()\<close>
  of an empty vector. \<open>UndefinedBehaviour\<close> is not a check the code makes; it marks the
  calls for which the code promises nothing.
\<close>

datatype fault = AssertionFailed | UndefinedBehaviour

definition bindE :: "fault + 'a \<Rightarrow> ('a \<Rightarrow> fault + 'b) \<Rightarrow> fault + 'b" where
  "bindE m f = (case m of Inl e \<Rightarrow> Inl e | Inr x \<Rightarrow> f x)"

section \<open>globals.h, globals.cpp\<close>

text \<open>\<^verbatim>\<open>enum Pieces { Pawn, Knight, Bishop, Rook, Queen, King, None }\<close>\<close>

definition Pawn :: int32 where "Pawn = 0"
definition Knight :: int32 where "Knight = 1"
definition Bishop :: int32 where "Bishop = 2"
definition Rook :: int32 where "Rook = 3"
definition Queen :: int32 where "Queen = 4"
definition King :: int32 where "King = 5"
definition None_piece :: int32 where "None_piece = 6"

definition Black :: int32 where "Black = 0"
definition White :: int32 where "White = 8"

text \<open>\<^verbatim>\<open>value & 7\<close>\<close>

definition getType :: "int32 \<Rightarrow> int32" where
  "getType val = val AND 7"

text \<open>\<^verbatim>\<open>value >> 3\<close> on a signed \<^verbatim>\<open>int\<close>: the arithmetic shift.\<close>

definition getColor :: "int32 \<Rightarrow> int32" where
  "getColor val = signed_drop_bit 3 val"

section \<open>nnue.h: constants and the network\<close>

definition InputSize :: uint32 where "InputSize = 768"
definition Layer1Size :: uint32 where "Layer1Size = 768"
definition Scale :: int32 where "Scale = 400"
definition Q :: int32 where "Q = 255 * 64"

text \<open>
  \<^verbatim>\<open>struct Network\<close>: the arrays are lists; their fixed lengths are the invariant
  \<open>wf_Network\<close>. The global \<^verbatim>\<open>g_nnue\<close> is passed to every function that reads it.
\<close>

record Network =
  featureWeights :: "int16 list"
  featureBiases :: "int16 list"
  outputWeights :: "int16 list"
  outputBias :: int16

definition wf_Network :: "Network \<Rightarrow> bool" where
  "wf_Network net \<longleftrightarrow>
     length (featureWeights net) = unat InputSize * unat Layer1Size \<and>
     length (featureBiases net) = unat Layer1Size \<and>
     length (outputWeights net) = unat Layer1Size * 2"

section \<open>The feature indexer\<close>

text \<open>
  \<^verbatim>\<open>featureIndices\<close>: both assertions first, then the two indices in \<^verbatim>\<open>std::uint32_t\<close>
  arithmetic. \<^verbatim>\<open>color\<close> is 0 for a white piece (\<^verbatim>\<open>getColor(piece) == 1\<close>) and 1 otherwise;
  \<^verbatim>\<open>!color\<close> is 1 exactly when \<^verbatim>\<open>color\<close> is 0. The pair is (blackIdx, whiteIdx).
\<close>

definition ColorStride :: uint32 where "ColorStride = 64 * 6"
definition PieceStride :: uint32 where "PieceStride = 64"

definition featureIndices :: "int32 \<Rightarrow> int32 \<Rightarrow> fault + (uint32 \<times> uint32)" where
  "featureIndices piece sq =
     (if piece = None_piece then Inl AssertionFailed
      else if sq = 64 then Inl AssertionFailed
      else
        let ptype = getType piece;
            color = (if getColor piece = 1 then 0 else 1 :: uint32);
            blackIdx = (if color = 0 then 1 else 0) * ColorStride + ptype * PieceStride + (sq XOR 0x38);
            whiteIdx = color * ColorStride + ptype * PieceStride + sq
        in Inr (blackIdx, whiteIdx))"

text \<open>
  The inputs the board passes: a piece type 0..5 in the low three bits and the colour in
  bit 3 (so the piece is one of 0..5 and 8..13), a square 0..63.
\<close>

definition valid_piece :: "int32 \<Rightarrow> bool" where
  "valid_piece piece \<longleftrightarrow> piece < 16 \<and> getType piece \<le> 5"

definition valid_square :: "int32 \<Rightarrow> bool" where
  "valid_square sq \<longleftrightarrow> sq < 64"

definition is_white :: "int32 \<Rightarrow> bool" where
  "is_white piece \<longleftrightarrow> bit piece 3"

text \<open>
  The two indices in the words of the specification, as natural numbers: the colour bit is
  1 for a white piece, the white index uses it and the black index uses one minus it.
\<close>

definition spec_whiteIdx :: "int32 \<Rightarrow> int32 \<Rightarrow> nat" where
  "spec_whiteIdx piece sq =
     (if is_white piece then 1 else 0) * 384 + unat (getType piece) * 64 + unat sq"

definition spec_blackIdx :: "int32 \<Rightarrow> int32 \<Rightarrow> nat" where
  "spec_blackIdx piece sq =
     (1 - (if is_white piece then 1 else 0)) * 384 + unat (getType piece) * 64 + unat (sq XOR 56)"

section \<open>The accumulator\<close>

record Accumulator =
  black :: "int16 list"
  white :: "int16 list"

definition wf_Accumulator :: "Accumulator \<Rightarrow> bool" where
  "wf_Accumulator acc \<longleftrightarrow>
     length (black acc) = unat Layer1Size \<and> length (white acc) = unat Layer1Size"

text \<open>
  \<^verbatim>\<open>std::copy(bias.begin(), bias.end(), out.begin())\<close>: element \<open>i\<close> of the source is
  stored at element \<open>i\<close> of the destination, in increasing order.
\<close>

definition std_copy :: "'a list \<Rightarrow> 'a list \<Rightarrow> 'a list" where
  "std_copy src dst = fold (\<lambda>i out. out[i := src ! i]) [0..<length src] dst"

definition init :: "Accumulator \<Rightarrow> int16 list \<Rightarrow> Accumulator" where
  "init acc bias = acc\<lparr>black := std_copy bias (black acc), white := std_copy bias (white acc)\<rparr>"

section \<open>Element-wise updates\<close>

text \<open>
  The operands of \<^verbatim>\<open>+=\<close> and \<^verbatim>\<open>-=\<close> on \<^verbatim>\<open>std::int16_t\<close> are promoted to \<^verbatim>\<open>int\<close>; the
  result, which always fits 32 bits, is converted back to 16 bits modulo \<open>2 ^ 16\<close>.
\<close>

definition add_assign :: "int16 \<Rightarrow> int \<Rightarrow> int16" where
  "add_assign x d = word_of_int (sint x + d)"

definition sub_assign :: "int16 \<Rightarrow> int \<Rightarrow> int16" where
  "sub_assign x d = word_of_int (sint x - d)"

text \<open>
  The three loops. The template parameter \<^verbatim>\<open>Size\<close> is the length of \<^verbatim>\<open>input\<close>. The
  assertions compare in \<^verbatim>\<open>std::size_t\<close> (64 bits), where the sum of a 32-bit offset and
  \<^verbatim>\<open>Size\<close> cannot wrap; the index \<^verbatim>\<open>offset + i\<close> inside the loop is a \<^verbatim>\<open>std::uint32_t\<close>
  sum and wraps.
\<close>

definition subtractAndAddToAll ::
    "int16 list \<Rightarrow> int16 list \<Rightarrow> uint32 \<Rightarrow> uint32 \<Rightarrow> fault + int16 list" where
  "subtractAndAddToAll input delta subOffset addOffset =
     (if \<not> unat subOffset + length input \<le> length delta then Inl AssertionFailed
      else if \<not> unat addOffset + length input \<le> length delta then Inl AssertionFailed
      else Inr (fold (\<lambda>i inp. inp[i := add_assign (inp ! i)
                  (sint (delta ! unat (addOffset + word_of_nat i)) -
                   sint (delta ! unat (subOffset + word_of_nat i)))])
                [0..<length input] input))"

definition addToAll :: "int16 list \<Rightarrow> int16 list \<Rightarrow> uint32 \<Rightarrow> fault + int16 list" where
  "addToAll input delta offset =
     (if \<not> unat offset + length input \<le> length delta then Inl AssertionFailed
      else Inr (fold (\<lambda>i inp. inp[i := add_assign (inp ! i)
                  (sint (delta ! unat (offset + word_of_nat i)))])
                [0..<length input] input))"

definition subtractFromAll :: "int16 list \<Rightarrow> int16 list \<Rightarrow> uint32 \<Rightarrow> fault + int16 list" where
  "subtractFromAll input delta offset =
     (if \<not> unat offset + length input \<le> length delta then Inl AssertionFailed
      else Inr (fold (\<lambda>i inp. inp[i := sub_assign (inp ! i)
                  (sint (delta ! unat (offset + word_of_nat i)))])
                [0..<length input] input))"

section \<open>Feature updates on one accumulator\<close>

text \<open>
  The private static overloads of \<^verbatim>\<open>moveFeature\<close>, \<^verbatim>\<open>activateFeature\<close> and
  \<^verbatim>\<open>deactivateFeature\<close> that take the accumulator: black vector first, then white.
\<close>

definition moveFeature_acc ::
    "Network \<Rightarrow> Accumulator \<Rightarrow> int32 \<Rightarrow> int32 \<Rightarrow> int32 \<Rightarrow> fault + Accumulator" where
  "moveFeature_acc net accumulator piece src dst =
     bindE (featureIndices piece src) (\<lambda>(blackSrc, whiteSrc).
     bindE (featureIndices piece dst) (\<lambda>(blackDst, whiteDst).
     bindE (subtractAndAddToAll (black accumulator) (featureWeights net)
              (blackSrc * Layer1Size) (blackDst * Layer1Size)) (\<lambda>b.
     bindE (subtractAndAddToAll (white accumulator) (featureWeights net)
              (whiteSrc * Layer1Size) (whiteDst * Layer1Size)) (\<lambda>w.
     Inr (accumulator\<lparr>black := b, white := w\<rparr>)))))"

definition activateFeature_acc ::
    "Network \<Rightarrow> Accumulator \<Rightarrow> int32 \<Rightarrow> int32 \<Rightarrow> fault + Accumulator" where
  "activateFeature_acc net accumulator piece sq =
     bindE (featureIndices piece sq) (\<lambda>(blackIdx, whiteIdx).
     bindE (addToAll (black accumulator) (featureWeights net) (blackIdx * Layer1Size)) (\<lambda>b.
     bindE (addToAll (white accumulator) (featureWeights net) (whiteIdx * Layer1Size)) (\<lambda>w.
     Inr (accumulator\<lparr>black := b, white := w\<rparr>))))"

definition deactivateFeature_acc ::
    "Network \<Rightarrow> Accumulator \<Rightarrow> int32 \<Rightarrow> int32 \<Rightarrow> fault + Accumulator" where
  "deactivateFeature_acc net accumulator piece sq =
     bindE (featureIndices piece sq) (\<lambda>(blackIdx, whiteIdx).
     bindE (subtractFromAll (black accumulator) (featureWeights net) (blackIdx * Layer1Size)) (\<lambda>b.
     bindE (subtractFromAll (white accumulator) (featureWeights net) (whiteIdx * Layer1Size)) (\<lambda>w.
     Inr (accumulator\<lparr>black := b, white := w\<rparr>))))"

section \<open>The forward pass\<close>

text \<open>
  \<^verbatim>\<open>std::clamp(static_cast<std::int32_t>(x), 0, 255)\<close>: the 16-bit value is sign-extended
  and compared as a signed number.
\<close>

definition clamp_0_255 :: "int16 \<Rightarrow> int32" where
  "clamp_0_255 x =
     (let v = (scast x :: int32) in if v <s 0 then 0 else if 255 <s v then 255 else v)"

text \<open>
  \<^verbatim>\<open>forward\<close>: two loops over the hidden dimension adding into one \<^verbatim>\<open>std::int32_t\<close> sum;
  the weight is promoted to \<^verbatim>\<open>int\<close> before the product. Sums and products are 32-bit
  two's complement: where the signed arithmetic of C++ would overflow (which the language
  leaves undefined), the word wraps around, as the machine does.
\<close>

definition forward :: "int16 list \<Rightarrow> int16 list \<Rightarrow> int16 list \<Rightarrow> int32" where
  "forward us them weights =
     (let sum1 = fold (\<lambda>i sum. sum + clamp_0_255 (us ! i) * scast (weights ! i))
                   [0..<unat Layer1Size] 0
      in fold (\<lambda>i sum. sum + clamp_0_255 (them ! i) * scast (weights ! (unat Layer1Size + i)))
           [0..<unat Layer1Size] sum1)"

text \<open>The quotient of \<^verbatim>\<open>/\<close> on \<^verbatim>\<open>std::int32_t\<close> is truncated towards zero.\<close>

definition sdiv32 :: "int32 \<Rightarrow> int32 \<Rightarrow> int32" where
  "sdiv32 a b = word_of_int (sint a sdiv sint b)"

definition evaluate_acc :: "Network \<Rightarrow> Accumulator \<Rightarrow> int32 \<Rightarrow> int32" where
  "evaluate_acc net accumulator stm =
     (let output = (if stm = 0
                    then forward (black accumulator) (white accumulator) (outputWeights net)
                    else forward (white accumulator) (black accumulator) (outputWeights net))
      in sdiv32 ((output + scast (outputBias net)) * Scale) Q)"

section \<open>The accumulator stack\<close>

text \<open>
  \<^verbatim>\<open>class NnueState\<close>: the vector is a list whose last element is \<^verbatim>\<open>back()\<close>. The pointer
  \<^verbatim>\<open>m_curr\<close> is the position of the element it points to (\<open>None\<close> for the null pointer
  of a fresh object); every member function that lets the vector grow assigns
  \<^verbatim>\<open>m_curr\<close> afterwards, so positions are compared as the addresses are.
\<close>

record NnueState =
  m_accumulatorStack :: "Accumulator list"
  m_curr :: "nat option"

definition NnueState_new :: NnueState where
  "NnueState_new = \<lparr>m_accumulatorStack = [], m_curr = None\<rparr>"

text \<open>\<^verbatim>\<open>&m_accumulatorStack.back()\<close>; no behaviour is defined on an empty vector.\<close>

definition back_ptr :: "Accumulator list \<Rightarrow> fault + nat" where
  "back_ptr st = (if st = [] then Inl UndefinedBehaviour else Inr (length st - 1))"

text \<open>\<^verbatim>\<open>assert(m_curr == &m_accumulatorStack.back())\<close>, returning the position on success.\<close>

definition assert_curr :: "NnueState \<Rightarrow> fault + nat" where
  "assert_curr s =
     bindE (back_ptr (m_accumulatorStack s)) (\<lambda>p.
       if m_curr s = Some p then Inr p else Inl AssertionFailed)"

definition push :: "NnueState \<Rightarrow> fault + NnueState" where
  "push s =
     bindE (assert_curr s) (\<lambda>c.
       let st = m_accumulatorStack s @ [m_accumulatorStack s ! c]
       in bindE (back_ptr st) (\<lambda>p. Inr (s\<lparr>m_accumulatorStack := st, m_curr := Some p\<rparr>)))"

text \<open>
  \<^verbatim>\<open>pop\<close> has no assertion: \<^verbatim>\<open>pop_back()\<close> (not defined on an empty vector), then
  \<^verbatim>\<open>back()\<close> of what is left.
\<close>

definition pop :: "NnueState \<Rightarrow> fault + NnueState" where
  "pop s =
     (if m_accumulatorStack s = [] then Inl UndefinedBehaviour
      else
        let st = butlast (m_accumulatorStack s)
        in bindE (back_ptr st) (\<lambda>p. Inr (s\<lparr>m_accumulatorStack := st, m_curr := Some p\<rparr>)))"

text \<open>
  \<^verbatim>\<open>reset\<close>: \<^verbatim>\<open>clear()\<close>, then \<^verbatim>\<open>emplace_back()\<close> of a value-initialised (all zero)
  accumulator, which \<^verbatim>\<open>init\<close> then overwrites with the biases.
\<close>

definition Accumulator_zero :: Accumulator where
  "Accumulator_zero =
     \<lparr>black = replicate (unat Layer1Size) 0, white = replicate (unat Layer1Size) 0\<rparr>"

definition reset :: "Network \<Rightarrow> NnueState \<Rightarrow> NnueState" where
  "reset net s =
     (let st = [] @ [Accumulator_zero];
          c = length st - 1
      in s\<lparr>m_accumulatorStack := st[c := init (st ! c) (featureBiases net)], m_curr := Some c\<rparr>)"

text \<open>The public member functions: the assertion, then the static overload on \<^verbatim>\<open>*m_curr\<close>.\<close>

definition moveFeature :: "Network \<Rightarrow> NnueState \<Rightarrow> int32 \<Rightarrow> int32 \<Rightarrow> int32 \<Rightarrow> fault + NnueState" where
  "moveFeature net s piece src dst =
     bindE (assert_curr s) (\<lambda>c.
     bindE (moveFeature_acc net (m_accumulatorStack s ! c) piece src dst) (\<lambda>a.
     Inr (s\<lparr>m_accumulatorStack := (m_accumulatorStack s)[c := a]\<rparr>)))"

definition activateFeature :: "Network \<Rightarrow> NnueState \<Rightarrow> int32 \<Rightarrow> int32 \<Rightarrow> fault + NnueState" where
  "activateFeature net s piece sq =
     bindE (assert_curr s) (\<lambda>c.
     bindE (activateFeature_acc net (m_accumulatorStack s ! c) piece sq) (\<lambda>a.
     Inr (s\<lparr>m_accumulatorStack := (m_accumulatorStack s)[c := a]\<rparr>)))"

definition deactivateFeature :: "Network \<Rightarrow> NnueState \<Rightarrow> int32 \<Rightarrow> int32 \<Rightarrow> fault + NnueState" where
  "deactivateFeature net s piece sq =
     bindE (assert_curr s) (\<lambda>c.
     bindE (deactivateFeature_acc net (m_accumulatorStack s ! c) piece sq) (\<lambda>a.
     Inr (s\<lparr>m_accumulatorStack := (m_accumulatorStack s)[c := a]\<rparr>)))"

text \<open>\<^verbatim>\<open>evaluate\<close> is a \<^verbatim>\<open>const\<close> member: it returns the score and no state.\<close>

definition evaluate :: "Network \<Rightarrow> NnueState \<Rightarrow> int32 \<Rightarrow> fault + int32" where
  "evaluate net s stm =
     bindE (assert_curr s) (\<lambda>c. Inr (evaluate_acc net (m_accumulatorStack s ! c) stm))"

section \<open>Depth, the class invariant and reachable states\<close>

definition depth :: "NnueState \<Rightarrow> nat" where
  "depth s = length (m_accumulatorStack s)"

text \<open>What the assertion of the member functions checks, on a non-empty vector.\<close>

definition active :: "NnueState \<Rightarrow> bool" where
  "active s \<longleftrightarrow>
     m_accumulatorStack s \<noteq> [] \<and> m_curr s = Some (length (m_accumulatorStack s) - 1)"

text \<open>
  The copy constructor and the copy assignment: the vector is copied and \<^verbatim>\<open>m_curr\<close> is set
  to \<^verbatim>\<open>&m_accumulatorStack.back()\<close> of the copy.
\<close>

definition NnueState_copy :: "NnueState \<Rightarrow> fault + NnueState" where
  "NnueState_copy other =
     (let st = m_accumulatorStack other
      in bindE (back_ptr st) (\<lambda>p. Inr \<lparr>m_accumulatorStack = st, m_curr = Some p\<rparr>))"

text \<open>
  The states an object can be in once \<^verbatim>\<open>reset\<close> has been called: every later call of a
  member function that returns leads to such a state again.
\<close>

inductive reachable :: "Network \<Rightarrow> NnueState \<Rightarrow> bool" for net :: Network where
  after_reset: "reachable net (reset net s)"
| after_push: "reachable net s \<Longrightarrow> push s = Inr s' \<Longrightarrow> reachable net s'"
| after_pop: "reachable net s \<Longrightarrow> pop s = Inr s' \<Longrightarrow> reachable net s'"
| after_move:
    "reachable net s \<Longrightarrow> moveFeature net s piece src dst = Inr s' \<Longrightarrow> reachable net s'"
| after_activate:
    "reachable net s \<Longrightarrow> activateFeature net s piece sq = Inr s' \<Longrightarrow> reachable net s'"
| after_deactivate:
    "reachable net s \<Longrightarrow> deactivateFeature net s piece sq = Inr s' \<Longrightarrow> reachable net s'"
| after_copy: "reachable net s \<Longrightarrow> NnueState_copy s = Inr s' \<Longrightarrow> reachable net s'"

code_pred reachable .

section \<open>Sequences of stack operations\<close>

datatype stack_op = Reset | Push | Pop

fun step :: "Network \<Rightarrow> stack_op \<Rightarrow> NnueState \<Rightarrow> fault + NnueState" where
  "step net Reset s = Inr (reset net s)"
| "step net Push s = push s"
| "step net Pop s = pop s"

fun run :: "Network \<Rightarrow> stack_op list \<Rightarrow> NnueState \<Rightarrow> fault + NnueState" where
  "run net [] s = Inr s"
| "run net (x # xs) s = bindE (step net x s) (run net xs)"

text \<open>
  The specification's side of the depth invariant. \<open>spec_pops_allowed d xs\<close>: starting at depth
  \<open>d\<close>, every \<open>Pop\<close> of \<open>xs\<close> finds a depth greater than 1 (the precondition of
  \<^verbatim>\<open>pop\<close>). \<open>spec_depth xs\<close>: one plus the pushes minus the pops since the last reset.
\<close>

fun spec_pops_allowed :: "nat \<Rightarrow> stack_op list \<Rightarrow> bool" where
  "spec_pops_allowed d [] = True"
| "spec_pops_allowed d (Reset # xs) = spec_pops_allowed 1 xs"
| "spec_pops_allowed d (Push # xs) = spec_pops_allowed (d + 1) xs"
| "spec_pops_allowed d (Pop # xs) = (1 < d \<and> spec_pops_allowed (d - 1) xs)"

definition spec_since_reset :: "stack_op list \<Rightarrow> stack_op list" where
  "spec_since_reset xs = rev (takeWhile (\<lambda>x. x \<noteq> Reset) (rev xs))"

definition spec_depth :: "stack_op list \<Rightarrow> int" where
  "spec_depth xs =
     1 + int (count_list (spec_since_reset xs) Push) - int (count_list (spec_since_reset xs) Pop)"

section \<open>The score in the words of the specification\<close>

text \<open>
  In unbounded integers: the clipped activation, the dot product, the sum of the two dot
  products (us against the first half of the output weights, them against the second half)
  and the output bias, and the rescaling by \<open>Scale\<close> over \<open>Q\<close> with a quotient
  truncated towards zero. \<open>stm = 0\<close> is black to move.
\<close>

definition spec_clipped :: "int16 \<Rightarrow> int" where
  "spec_clipped x = max 0 (min 255 (sint x))"

definition spec_dot :: "int list \<Rightarrow> int list \<Rightarrow> int" where
  "spec_dot xs ys = sum_list (map (\<lambda>(x, y). x * y) (zip xs ys))"

definition spec_output :: "Network \<Rightarrow> Accumulator \<Rightarrow> int32 \<Rightarrow> int" where
  "spec_output net acc stm =
     (let (us, them) = (if stm = 0 then (black acc, white acc) else (white acc, black acc));
          h = unat Layer1Size
      in spec_dot (map spec_clipped us) (map sint (take h (outputWeights net))) +
         spec_dot (map spec_clipped them) (map sint (drop h (outputWeights net))) +
         sint (outputBias net))"

definition spec_evaluate :: "Network \<Rightarrow> Accumulator \<Rightarrow> int32 \<Rightarrow> int" where
  "spec_evaluate net acc stm = (spec_output net acc stm * sint Scale) sdiv sint Q"

section \<open>Example inputs\<close>

definition example_net :: Network where
  "example_net =
     \<lparr>featureWeights = replicate 589824 3,
      featureBiases = replicate 768 5,
      outputWeights = replicate 768 2 @ replicate 768 (- 3),
      outputBias = 7\<rparr>"

definition example_acc :: Accumulator where
  "example_acc = \<lparr>black = replicate 768 300, white = replicate 768 (- 5)\<rparr>"

definition example_single :: NnueState where
  "example_single = \<lparr>m_accumulatorStack = [example_acc], m_curr = Some 0\<rparr>"

definition example_double :: NnueState where
  "example_double = \<lparr>m_accumulatorStack = [Accumulator_zero, example_acc], m_curr = Some 1\<rparr>"

text \<open>
  A network whose biases are all 255 and whose output weights are all 14, and the
  accumulator that \<^verbatim>\<open>reset\<close> builds from it: the exact product with \<open>Scale\<close> is
  2193408000, more than 32 bits hold.
\<close>

definition overflow_net :: Network where
  "overflow_net =
     \<lparr>featureWeights = replicate 589824 0,
      featureBiases = replicate 768 255,
      outputWeights = replicate 768 14 @ replicate 768 14,
      outputBias = 0\<rparr>"

definition overflow_acc :: Accumulator where
  "overflow_acc = \<lparr>black = replicate 768 255, white = replicate 768 255\<rparr>"

section \<open>Auxiliary facts\<close>

lemma fold_update_upt:
  "n \<le> length xs \<Longrightarrow>
     fold (\<lambda>i ys. ys[i := g i (ys ! i)]) [0..<n] xs = map (\<lambda>i. g i (xs ! i)) [0..<n] @ drop n xs"
proof (induction n)
  case 0
  then show ?case by simp
next
  case (Suc n)
  then have n: "n < length xs" by simp
  have "fold (\<lambda>i ys. ys[i := g i (ys ! i)]) [0..<Suc n] xs =
        (map (\<lambda>i. g i (xs ! i)) [0..<n] @ drop n xs)[n := g n ((map (\<lambda>i. g i (xs ! i)) [0..<n] @ drop n xs) ! n)]"
    using Suc by simp
  also have "(map (\<lambda>i. g i (xs ! i)) [0..<n] @ drop n xs) ! n = xs ! n"
    using n by (simp add: nth_append)
  also have "(map (\<lambda>i. g i (xs ! i)) [0..<n] @ drop n xs)[n := g n (xs ! n)] =
             map (\<lambda>i. g i (xs ! i)) [0..<n] @ (drop n xs)[0 := g n (xs ! n)]"
    by (simp add: list_update_append)
  also have "(drop n xs)[0 := g n (xs ! n)] = g n (xs ! n) # drop (Suc n) xs"
    using n by (simp add: Cons_nth_drop_Suc [symmetric])
  finally show ?case by simp
qed

lemma word_lt16_cases:
  assumes "(w :: 32 word) < 16"
  shows "w \<in> {0,1,2,3,4,5,6,7,8,9,10,11,12,13,14,15}"
proof -
  from assms have "unat w < 16" by (simp add: word_less_nat_alt)
  then have "unat w \<in> {0,1,2,3,4,5,6,7,8,9,10,11,12,13,14,15}" by simp arith
  then have "word_of_nat (unat w) \<in> (word_of_nat ` {0,1,2,3,4,5,6,7,8,9,10,11,12,13,14,15} :: 32 word set)"
    by (rule imageI)
  then show ?thesis by simp
qed

lemma piece_cases:
  assumes "valid_piece piece"
  shows "piece \<in> {0, 1, 2, 3, 4, 5, 8, 9, 10, 11, 12, 13}"
  using assms word_lt16_cases [of piece]
  by (auto simp: valid_piece_def getType_def)

lemma getType_le: "valid_piece piece \<Longrightarrow> unat (getType piece) \<le> 5"
  by (simp add: valid_piece_def word_le_nat_alt)

lemma getColor_white: "valid_piece piece \<Longrightarrow> getColor piece = 1 \<longleftrightarrow> is_white piece"
  using piece_cases [of piece] by (auto simp: getColor_def is_white_def)

lemma not_None: "valid_piece piece \<Longrightarrow> piece \<noteq> None_piece"
  by (auto simp: valid_piece_def getType_def None_piece_def)

lemma sq_xor_lt:
  assumes "valid_square sq"
  shows "unat (sq XOR 56) < 64"
proof -
  from assms have "unat sq < 2 ^ 6" by (simp add: valid_square_def word_less_nat_alt)
  then have "take_bit 6 (unat sq) = unat sq" by (simp only: take_bit_nat_eq_self_iff)
  moreover have "take_bit 6 (56 :: nat) = 56" by simp
  ultimately have "take_bit 6 (unat sq XOR 56) = unat sq XOR 56"
    by (simp only: take_bit_xor)
  moreover have "take_bit 6 (unat sq XOR 56) < 2 ^ 6" by (rule take_bit_nat_less_exp)
  moreover have "unat (sq XOR 56) = unat sq XOR 56" by (simp add: unsigned_xor_eq)
  ultimately show ?thesis by simp
qed

lemma featureIndices_valid:
  assumes "valid_piece piece" "valid_square sq"
  shows "featureIndices piece sq =
           Inr ((if is_white piece then 1 else 0) * 384 + getType piece * 64 + (sq XOR 56),
                (if is_white piece then 0 else 1) * 384 + getType piece * 64 + sq)"
  using assms not_None [of piece] getColor_white [of piece]
  by (auto simp: featureIndices_def valid_square_def ColorStride_def PieceStride_def Let_def)

lemma index_unat:
  assumes "unat (t :: uint32) \<le> 5" "unat (x :: uint32) < 64"
  shows "unat (t * 64 + x) = unat t * 64 + unat x"
    and "unat (384 + t * 64 + x) = 384 + unat t * 64 + unat x"
proof -
  have m: "unat (t * 64) = unat t * 64"
    using assms(1) by (simp add: unat_word_ariths)
  show 0: "unat (t * 64 + x) = unat t * 64 + unat x"
    using assms m by (simp add: unat_word_ariths)
  show "unat (384 + t * 64 + x) = 384 + unat t * 64 + unat x"
    using assms 0 by (simp add: unat_word_ariths add.assoc)
qed

lemma featureIndices_lt:
  assumes "valid_piece piece" "valid_square sq"
  shows "\<exists>blackIdx whiteIdx. featureIndices piece sq = Inr (blackIdx, whiteIdx) \<and>
           unat blackIdx < 768 \<and> unat whiteIdx < 768"
proof -
  have t: "unat (getType piece) \<le> 5" using assms(1) by (rule getType_le)
  have s: "unat sq < 64" using assms(2) by (simp add: valid_square_def word_less_nat_alt)
  have x: "unat (sq XOR 56) < 64" using assms(2) by (rule sq_xor_lt)
  show ?thesis
    using featureIndices_valid [OF assms] t s x
    by (simp add: index_unat [OF t s] index_unat [OF t x])
qed

lemma row_offset:
  assumes "unat (idx :: uint32) < 768"
  shows "unat (idx * Layer1Size) = unat idx * 768"
  using assms by (simp add: Layer1Size_def unat_word_ariths)

lemma row_index:
  assumes "unat (idx :: uint32) < 768" "i < 768"
  shows "unat (idx * Layer1Size + word_of_nat i) = unat idx * 768 + i"
proof -
  have "unat (word_of_nat i :: uint32) = i"
    using assms(2) by (simp add: unat_of_nat)
  then show ?thesis
    using assms row_offset [OF assms(1)] by (simp add: unat_word_ariths)
qed

lemma fold_update_all:
  "fold (\<lambda>i ys. ys[i := g i (ys ! i)]) [0..<length xs] xs = map (\<lambda>i. g i (xs ! i)) [0..<length xs]"
  using fold_update_upt [of "length xs" xs g] by simp

lemma addToAll_Inr:
  assumes "unat offset + length input \<le> length delta"
  shows "addToAll input delta offset =
           Inr (map (\<lambda>i. add_assign (input ! i) (sint (delta ! unat (offset + word_of_nat i))))
                  [0..<length input])"
  using assms
  by (simp add: addToAll_def
      fold_update_all [of "\<lambda>i x. add_assign x (sint (delta ! unat (offset + word_of_nat i)))" input])

lemma subtractFromAll_Inr:
  assumes "unat offset + length input \<le> length delta"
  shows "subtractFromAll input delta offset =
           Inr (map (\<lambda>i. sub_assign (input ! i) (sint (delta ! unat (offset + word_of_nat i))))
                  [0..<length input])"
  using assms
  by (simp add: subtractFromAll_def
      fold_update_all [of "\<lambda>i x. sub_assign x (sint (delta ! unat (offset + word_of_nat i)))" input])

lemma subtractAndAddToAll_Inr:
  assumes "unat subOffset + length input \<le> length delta"
      and "unat addOffset + length input \<le> length delta"
  shows "subtractAndAddToAll input delta subOffset addOffset =
           Inr (map (\<lambda>i. add_assign (input ! i)
                         (sint (delta ! unat (addOffset + word_of_nat i)) -
                          sint (delta ! unat (subOffset + word_of_nat i))))
                  [0..<length input])"
  using assms
  by (simp add: subtractAndAddToAll_def
      fold_update_all [of "\<lambda>i x. add_assign x (sint (delta ! unat (addOffset + word_of_nat i)) -
                          sint (delta ! unat (subOffset + word_of_nat i)))" input])

lemma sub_add_assign: "sub_assign (add_assign x d) d = x"
  by (simp add: sub_assign_def add_assign_def)

lemma add_sub_assign_fused:
  "add_assign (sub_assign x (sint s)) (sint a) = add_assign x (sint a - sint s)"
  by (simp add: sub_assign_def add_assign_def)

lemma row_fits:
  assumes "wf_Network net" "unat (idx :: uint32) < 768" "length input = unat Layer1Size"
  shows "unat (idx * Layer1Size) + length input \<le> length (featureWeights net)"
  using assms row_offset [OF assms(2)]
  by (simp add: wf_Network_def InputSize_def Layer1Size_def)

lemma activateFeature_acc_Inr:
  assumes "wf_Network net" "wf_Accumulator acc"
      and "featureIndices piece sq = Inr (b, w)" "unat b < 768" "unat w < 768"
  shows "activateFeature_acc net acc piece sq =
    Inr (acc\<lparr>black := map (\<lambda>i. add_assign (black acc ! i)
                         (sint (featureWeights net ! unat (b * Layer1Size + word_of_nat i))))
                       [0..<length (black acc)],
             white := map (\<lambda>i. add_assign (white acc ! i)
                         (sint (featureWeights net ! unat (w * Layer1Size + word_of_nat i))))
                       [0..<length (white acc)]\<rparr>)"
proof -
  have lb: "length (black acc) = unat Layer1Size" and lw: "length (white acc) = unat Layer1Size"
    using assms(2) by (simp_all add: wf_Accumulator_def)
  show ?thesis
    unfolding activateFeature_acc_def
    by (simp add: assms(3) bindE_def
        addToAll_Inr [OF row_fits [OF assms(1) assms(4) lb]]
        addToAll_Inr [OF row_fits [OF assms(1) assms(5) lw]])
qed

lemma deactivateFeature_acc_Inr:
  assumes "wf_Network net" "wf_Accumulator acc"
      and "featureIndices piece sq = Inr (b, w)" "unat b < 768" "unat w < 768"
  shows "deactivateFeature_acc net acc piece sq =
    Inr (acc\<lparr>black := map (\<lambda>i. sub_assign (black acc ! i)
                         (sint (featureWeights net ! unat (b * Layer1Size + word_of_nat i))))
                       [0..<length (black acc)],
             white := map (\<lambda>i. sub_assign (white acc ! i)
                         (sint (featureWeights net ! unat (w * Layer1Size + word_of_nat i))))
                       [0..<length (white acc)]\<rparr>)"
proof -
  have lb: "length (black acc) = unat Layer1Size" and lw: "length (white acc) = unat Layer1Size"
    using assms(2) by (simp_all add: wf_Accumulator_def)
  show ?thesis
    unfolding deactivateFeature_acc_def
    by (simp add: assms(3) bindE_def
        subtractFromAll_Inr [OF row_fits [OF assms(1) assms(4) lb]]
        subtractFromAll_Inr [OF row_fits [OF assms(1) assms(5) lw]])
qed

lemma moveFeature_acc_Inr:
  assumes "wf_Network net" "wf_Accumulator acc"
      and "featureIndices piece src = Inr (bs, ws)" "unat bs < 768" "unat ws < 768"
      and "featureIndices piece dst = Inr (bd, wd)" "unat bd < 768" "unat wd < 768"
  shows "moveFeature_acc net acc piece src dst =
    Inr (acc\<lparr>black := map (\<lambda>i. add_assign (black acc ! i)
                         (sint (featureWeights net ! unat (bd * Layer1Size + word_of_nat i)) -
                          sint (featureWeights net ! unat (bs * Layer1Size + word_of_nat i))))
                       [0..<length (black acc)],
             white := map (\<lambda>i. add_assign (white acc ! i)
                         (sint (featureWeights net ! unat (wd * Layer1Size + word_of_nat i)) -
                          sint (featureWeights net ! unat (ws * Layer1Size + word_of_nat i))))
                       [0..<length (white acc)]\<rparr>)"
proof -
  have lb: "length (black acc) = unat Layer1Size" and lw: "length (white acc) = unat Layer1Size"
    using assms(2) by (simp_all add: wf_Accumulator_def)
  show ?thesis
    unfolding moveFeature_acc_def
    by (simp add: assms(3) assms(6) bindE_def
        subtractAndAddToAll_Inr [OF row_fits [OF assms(1) assms(4) lb] row_fits [OF assms(1) assms(7) lb]]
        subtractAndAddToAll_Inr [OF row_fits [OF assms(1) assms(5) lw] row_fits [OF assms(1) assms(8) lw]])
qed

lemma undo_row:
  "map (\<lambda>i. sub_assign (map (\<lambda>j. add_assign (xs ! j) (d j)) [0..<length xs] ! i) (d i))
     [0..<length xs] = xs"
  by (rule nth_equalityI) (simp_all add: sub_add_assign)

lemma fuse_row:
  "map (\<lambda>i. add_assign (map (\<lambda>j. sub_assign (xs ! j) (sint (s j))) [0..<length xs] ! i) (sint (a i)))
     [0..<length xs] =
   map (\<lambda>i. add_assign (xs ! i) (sint (a i) - sint (s i))) [0..<length xs]"
  by (rule nth_equalityI) (simp_all add: add_sub_assign_fused)

lemma same_row: "map (\<lambda>i. add_assign (xs ! i) 0) [0..<length xs] = xs"
  by (rule nth_equalityI) (simp_all add: add_assign_def)

lemma activate_then_deactivate_acc:
  assumes "wf_Network net" "wf_Accumulator acc" "valid_piece p" "valid_square s"
  shows "bindE (activateFeature_acc net acc p s) (\<lambda>a. deactivateFeature_acc net a p s) = Inr acc"
proof -
  from featureIndices_lt [OF assms(3,4)] obtain b w where
    fi: "featureIndices p s = Inr (b, w)" and b: "unat b < 768" and w: "unat w < 768"
    by blast
  define a1 where "a1 = acc\<lparr>black := map (\<lambda>i. add_assign (black acc ! i)
                         (sint (featureWeights net ! unat (b * Layer1Size + word_of_nat i))))
                       [0..<length (black acc)],
             white := map (\<lambda>i. add_assign (white acc ! i)
                         (sint (featureWeights net ! unat (w * Layer1Size + word_of_nat i))))
                       [0..<length (white acc)]\<rparr>"
  have act: "activateFeature_acc net acc p s = Inr a1"
    unfolding a1_def by (rule activateFeature_acc_Inr [OF assms(1,2) fi b w])
  have wf1: "wf_Accumulator a1"
    using assms(2) by (simp add: a1_def wf_Accumulator_def)
  have "deactivateFeature_acc net a1 p s = Inr acc"
    unfolding deactivateFeature_acc_Inr [OF assms(1) wf1 fi b w]
    by (simp add: a1_def undo_row)
  with act show ?thesis by (simp add: bindE_def)
qed

lemma moveFeature_fused_acc:
  assumes "wf_Network net" "wf_Accumulator acc" "valid_piece p" "valid_square src" "valid_square dst"
  shows "\<exists>a. moveFeature_acc net acc p src dst = Inr a \<and>
           bindE (deactivateFeature_acc net acc p src) (\<lambda>a'. activateFeature_acc net a' p dst) = Inr a"
proof -
  from featureIndices_lt [OF assms(3,4)] obtain bs ws where
    fs: "featureIndices p src = Inr (bs, ws)" and bs: "unat bs < 768" and ws: "unat ws < 768"
    by blast
  from featureIndices_lt [OF assms(3,5)] obtain bd wd where
    fd: "featureIndices p dst = Inr (bd, wd)" and bd: "unat bd < 768" and wd: "unat wd < 768"
    by blast
  define a1 where "a1 = acc\<lparr>black := map (\<lambda>i. sub_assign (black acc ! i)
                         (sint (featureWeights net ! unat (bs * Layer1Size + word_of_nat i))))
                       [0..<length (black acc)],
             white := map (\<lambda>i. sub_assign (white acc ! i)
                         (sint (featureWeights net ! unat (ws * Layer1Size + word_of_nat i))))
                       [0..<length (white acc)]\<rparr>"
  have deact: "deactivateFeature_acc net acc p src = Inr a1"
    unfolding a1_def by (rule deactivateFeature_acc_Inr [OF assms(1,2) fs bs ws])
  have wf1: "wf_Accumulator a1"
    using assms(2) by (simp add: a1_def wf_Accumulator_def)
  have "activateFeature_acc net a1 p dst = moveFeature_acc net acc p src dst"
    unfolding activateFeature_acc_Inr [OF assms(1) wf1 fd bd wd]
      moveFeature_acc_Inr [OF assms(1,2) fs bs ws fd bd wd]
    by (simp add: a1_def fuse_row)
  with deact moveFeature_acc_Inr [OF assms(1,2) fs bs ws fd bd wd] show ?thesis
    by (simp add: bindE_def)
qed

lemma moveFeature_same_square_acc:
  assumes "wf_Network net" "wf_Accumulator acc" "valid_piece p" "valid_square s"
  shows "moveFeature_acc net acc p s s = Inr acc"
proof -
  from featureIndices_lt [OF assms(3,4)] obtain b w where
    fi: "featureIndices p s = Inr (b, w)" and b: "unat b < 768" and w: "unat w < 768"
    by blast
  show ?thesis
    unfolding moveFeature_acc_Inr [OF assms(1,2) fi b w fi b w]
    by (simp add: same_row)
qed

lemma std_copy_all: "length src = length dst \<Longrightarrow> std_copy src dst = src"
proof -
  assume l: "length src = length dst"
  have "std_copy src dst = fold (\<lambda>i out. out[i := (\<lambda>i _. src ! i) i (out ! i)]) [0..<length dst] dst"
    by (simp add: std_copy_def l)
  also have "\<dots> = map (\<lambda>i. src ! i) [0..<length dst]"
    by (rule fold_update_all)
  also have "\<dots> = src"
    using l map_nth [of src] by simp
  finally show ?thesis .
qed

lemma init_bias:
  assumes "wf_Accumulator acc" "length bias = unat Layer1Size"
  shows "init acc bias = \<lparr>black = bias, white = bias\<rparr>"
  using assms by (simp add: init_def wf_Accumulator_def std_copy_all)

lemma wf_Accumulator_zero: "wf_Accumulator Accumulator_zero"
  by (simp add: wf_Accumulator_def Accumulator_zero_def)

lemma reset_eq:
  assumes "wf_Network net"
  shows "reset net s = \<lparr>m_accumulatorStack = [\<lparr>black = featureBiases net, white = featureBiases net\<rparr>],
                         m_curr = Some 0\<rparr>"
proof -
  have "length (featureBiases net) = unat Layer1Size"
    using assms by (simp add: wf_Network_def)
  then have "init Accumulator_zero (featureBiases net) = \<lparr>black = featureBiases net, white = featureBiases net\<rparr>"
    by (rule init_bias [OF wf_Accumulator_zero])
  then show ?thesis by (simp add: reset_def)
qed

lemma reset_active: "active (reset net s)"
  by (simp add: reset_def active_def)

lemma depth_reset: "depth (reset net s) = 1"
  by (simp add: reset_def depth_def)

lemma assert_curr_active: "active s \<Longrightarrow> assert_curr s = Inr (length (m_accumulatorStack s) - 1)"
  by (simp add: active_def assert_curr_def back_ptr_def bindE_def)

lemma assert_curr_Inr: "assert_curr s = Inr c \<Longrightarrow> active s \<and> c = length (m_accumulatorStack s) - 1"
  by (auto simp: active_def assert_curr_def back_ptr_def bindE_def split: if_splits)

lemma push_active:
  assumes "active s"
  shows "push s = Inr (s\<lparr>m_accumulatorStack := m_accumulatorStack s @ [last (m_accumulatorStack s)],
                         m_curr := Some (length (m_accumulatorStack s))\<rparr>)"
  using assms
  by (simp add: push_def assert_curr_active bindE_def back_ptr_def Let_def last_conv_nth active_def)

lemma push_Inr:
  assumes "push s = Inr s'"
  shows "active s \<and> s' = s\<lparr>m_accumulatorStack := m_accumulatorStack s @ [last (m_accumulatorStack s)],
                         m_curr := Some (length (m_accumulatorStack s))\<rparr>"
proof -
  from assms obtain c where "assert_curr s = Inr c"
    by (cases "assert_curr s") (simp_all add: push_def bindE_def)
  then have "active s" by (simp add: assert_curr_Inr)
  with assms push_active [of s] show ?thesis by simp
qed

lemma pop_deep:
  assumes "1 < depth s"
  shows "pop s = Inr (s\<lparr>m_accumulatorStack := butlast (m_accumulatorStack s), m_curr := Some (depth s - 2)\<rparr>)"
proof -
  have "m_accumulatorStack s \<noteq> []" using assms by (auto simp: depth_def)
  moreover have "butlast (m_accumulatorStack s) \<noteq> []"
    using assms by (cases "m_accumulatorStack s" rule: rev_cases) (auto simp: depth_def)
  moreover have "length (butlast (m_accumulatorStack s)) - 1 = depth s - 2"
    by (simp add: depth_def)
  ultimately show ?thesis
    by (simp add: pop_def bindE_def back_ptr_def Let_def)
qed

lemma pop_shallow:
  assumes "depth s \<le> 1"
  shows "pop s = Inl UndefinedBehaviour"
proof (cases "m_accumulatorStack s")
  case Nil
  then show ?thesis by (simp add: pop_def)
next
  case (Cons a st)
  with assms have "st = []" by (simp add: depth_def)
  with Cons show ?thesis by (simp add: pop_def back_ptr_def bindE_def)
qed

lemma pop_Inr:
  assumes "pop s = Inr s'"
  shows "1 < depth s \<and> active s' \<and> depth s' + 1 = depth s"
proof -
  have d: "1 < depth s"
    using assms pop_shallow [of s] by (cases "1 < depth s") simp_all
  from pop_deep [OF d] assms
  have s': "s' = s\<lparr>m_accumulatorStack := butlast (m_accumulatorStack s), m_curr := Some (depth s - 2)\<rparr>"
    by simp
  have "butlast (m_accumulatorStack s) \<noteq> []"
    using d by (cases "m_accumulatorStack s" rule: rev_cases) (auto simp: depth_def)
  with d s' show ?thesis
    by (auto simp: active_def depth_def)
qed

lemma feature_update_active:
  assumes "bindE (assert_curr s) (\<lambda>c. bindE (f (m_accumulatorStack s ! c))
             (\<lambda>a. Inr (s\<lparr>m_accumulatorStack := (m_accumulatorStack s)[c := a]\<rparr>))) = Inr s'"
  shows "active s'"
proof -
  from assms obtain c where c: "assert_curr s = Inr c"
    by (cases "assert_curr s") (simp_all add: bindE_def)
  with assms obtain a where "s' = s\<lparr>m_accumulatorStack := (m_accumulatorStack s)[c := a]\<rparr>"
    by (cases "f (m_accumulatorStack s ! c)") (auto simp: bindE_def)
  with assert_curr_Inr [OF c] show ?thesis
    by (simp add: active_def)
qed

lemma copy_active: "NnueState_copy s = Inr s' \<Longrightarrow> active s'"
  by (auto simp: NnueState_copy_def back_ptr_def bindE_def active_def Let_def split: if_splits)

lemma reachable_active: "reachable net s \<Longrightarrow> active s"
proof (induction rule: reachable.induct)
  case (after_reset s)
  show ?case by (rule reset_active)
next
  case (after_push s s')
  then show ?case using push_Inr [of s s'] by (simp add: active_def)
next
  case (after_pop s s')
  then show ?case by (simp add: pop_Inr)
next
  case (after_move s piece src dst s')
  then show ?case unfolding moveFeature_def by (simp add: feature_update_active)
next
  case (after_activate s piece sq s')
  then show ?case unfolding activateFeature_def by (simp add: feature_update_active)
next
  case (after_deactivate s piece sq s')
  then show ?case unfolding deactivateFeature_def by (simp add: feature_update_active)
next
  case (after_copy s s')
  then show ?case by (simp add: copy_active)
qed

lemma spec_since_reset_all: "Reset \<notin> set xs \<Longrightarrow> spec_since_reset xs = xs"
proof -
  assume "Reset \<notin> set xs"
  then have "\<forall>x\<in>set (rev xs). x \<noteq> Reset" by auto
  then have "takeWhile (\<lambda>x. x \<noteq> Reset) (rev xs) = rev xs"
    by (rule takeWhile_eq_all_conv [THEN iffD2])
  then show ?thesis unfolding spec_since_reset_def by (simp only: rev_rev_ident)
qed

lemma spec_since_reset_Cons:
  "spec_since_reset (x # xs) =
     (if Reset \<in> set xs then spec_since_reset xs else if x = Reset then xs else x # xs)"
proof (cases "Reset \<in> set xs")
  case True
  then show ?thesis by (auto simp: spec_since_reset_def takeWhile_append)
next
  case False
  then have "\<And>y. y \<in> set (rev xs) \<Longrightarrow> y \<noteq> Reset" by auto
  then have "takeWhile (\<lambda>x. x \<noteq> Reset) (rev xs @ [x]) = rev xs @ takeWhile (\<lambda>x. x \<noteq> Reset) [x]"
    by (rule takeWhile_append2)
  with False show ?thesis by (simp add: spec_since_reset_def)
qed

lemma spec_depth_Cons:
  "spec_depth (x # xs) =
     (if Reset \<in> set xs then spec_depth xs
      else if x = Reset then 1 + int (count_list xs Push) - int (count_list xs Pop)
      else 1 + int (count_list (x # xs) Push) - int (count_list (x # xs) Pop))"
  by (simp add: spec_depth_def spec_since_reset_Cons)

lemma active_depth: "active s \<Longrightarrow> 1 \<le> depth s"
  by (cases "m_accumulatorStack s") (simp_all add: active_def depth_def)

lemma spec_pops_allowed_append:
  "spec_pops_allowed d (xs @ ys) \<Longrightarrow> spec_pops_allowed d xs"
  by (induction d xs rule: spec_pops_allowed.induct) auto

lemma spec_pops_allowed_take: "spec_pops_allowed d xs \<Longrightarrow> spec_pops_allowed d (take n xs)"
  using spec_pops_allowed_append [of d "take n xs" "drop n xs"] by simp

lemma run_depth:
  assumes "spec_pops_allowed (depth s) xs" "active s"
  shows "\<exists>s'. run net xs s = Inr s' \<and> active s' \<and>
           int (depth s') = (if Reset \<in> set xs then spec_depth xs
                             else int (depth s) + int (count_list xs Push) - int (count_list xs Pop))"
  using assms
proof (induction xs arbitrary: s)
  case Nil
  then show ?case by simp
next
  case (Cons x xs)
  show ?case
  proof (cases x)
    case Reset
    have "spec_pops_allowed (depth (reset net s)) xs"
      using Cons.prems(1) Reset by (simp add: depth_reset)
    from Cons.IH [OF this reset_active] obtain s' where
      "run net xs (reset net s) = Inr s'" "active s'"
      "int (depth s') = (if Reset \<in> set xs then spec_depth xs
          else int (depth (reset net s)) + int (count_list xs Push) - int (count_list xs Pop))"
      by blast
    then show ?thesis
      using Reset by (simp add: bindE_def spec_depth_Cons depth_reset)
  next
    case Push
    define s1 where "s1 = s\<lparr>m_accumulatorStack := m_accumulatorStack s @ [last (m_accumulatorStack s)],
                         m_curr := Some (length (m_accumulatorStack s))\<rparr>"
    have p: "push s = Inr s1" unfolding s1_def by (rule push_active [OF Cons.prems(2)])
    have d: "depth s1 = depth s + 1" by (simp add: s1_def depth_def)
    have a: "active s1" by (simp add: s1_def active_def)
    have "spec_pops_allowed (depth s1) xs" using Cons.prems(1) Push d by simp
    from Cons.IH [OF this a] obtain s' where
      "run net xs s1 = Inr s'" "active s'"
      "int (depth s') = (if Reset \<in> set xs then spec_depth xs
          else int (depth s1) + int (count_list xs Push) - int (count_list xs Pop))"
      by blast
    then show ?thesis
      using Push p d by (simp add: bindE_def spec_depth_Cons)
  next
    case Pop
    have deep: "1 < depth s" using Cons.prems(1) Pop by simp
    define s1 where "s1 = s\<lparr>m_accumulatorStack := butlast (m_accumulatorStack s), m_curr := Some (depth s - 2)\<rparr>"
    have p: "pop s = Inr s1" unfolding s1_def by (rule pop_deep [OF deep])
    from pop_Inr [OF p] have a: "active s1" and d: "depth s1 + 1 = depth s" by simp_all
    from d have "depth s1 = depth s - 1" by arith
    then have "spec_pops_allowed (depth s1) xs" using Cons.prems(1) Pop by simp
    from Cons.IH [OF this a] obtain s' where
      "run net xs s1 = Inr s'" "active s'"
      "int (depth s') = (if Reset \<in> set xs then spec_depth xs
          else int (depth s1) + int (count_list xs Push) - int (count_list xs Pop))"
      by blast
    then show ?thesis
      using Pop p d by (auto simp: bindE_def spec_depth_Cons)
  qed
qed

lemma spec_depth_no_reset:
  "Reset \<notin> set xs \<Longrightarrow> spec_depth xs = 1 + int (count_list xs Push) - int (count_list xs Pop)"
  by (simp add: spec_depth_def spec_since_reset_all)

lemma sint_scast_16_32: "sint (scast (x :: int16) :: int32) = sint x"
  by (simp add: sint_up_scast is_up)

lemma clamp_0_255_clipped: "clamp_0_255 x = word_of_int (spec_clipped x)"
proof -
  have s: "sint (scast x :: int32) = sint x" by (rule sint_scast_16_32)
  consider "sint x < 0" | "0 \<le> sint x \<and> sint x \<le> 255" | "255 < sint x" by linarith
  then show ?thesis
  proof cases
    case 1
    then show ?thesis by (simp add: clamp_0_255_def spec_clipped_def Let_def word_sless_alt s)
  next
    case 2
    then show ?thesis by (simp add: clamp_0_255_def spec_clipped_def Let_def word_sless_alt s)
  next
    case 3
    then show ?thesis by (simp add: clamp_0_255_def spec_clipped_def Let_def word_sless_alt s)
  qed
qed

lemma product_term: "clamp_0_255 x * scast w = (word_of_int (spec_clipped x * sint w) :: int32)"
  by (simp add: clamp_0_255_clipped)

lemma fold_plus:
  "fold (\<lambda>i (s :: int32). s + f i) xs a = a + sum_list (map f xs)"
  by (induction xs arbitrary: a) (simp_all add: add.assoc)

lemma sum_list_word_of_int:
  "sum_list (map (\<lambda>i. word_of_int (g i)) xs) = (word_of_int (sum_list (map g xs)) :: int32)"
  by (induction xs) simp_all

lemma spec_dot_nth:
  assumes "length xs = n" "length ys = n"
  shows "spec_dot (map f xs) (map g ys) = sum_list (map (\<lambda>i. f (xs ! i) * g (ys ! i)) [0..<n])"
proof -
  have "map (\<lambda>(x, y). x * y) (zip (map f xs) (map g ys)) =
        map (\<lambda>i. f (xs ! i) * g (ys ! i)) [0..<n]"
    using assms by (intro nth_equalityI) simp_all
  then show ?thesis by (simp add: spec_dot_def)
qed

lemma forward_eq:
  assumes "length us = unat Layer1Size" "length them = unat Layer1Size"
      and "length weights = unat Layer1Size * 2"
  shows "forward us them weights =
           word_of_int (spec_dot (map spec_clipped us) (map sint (take (unat Layer1Size) weights)) +
                        spec_dot (map spec_clipped them) (map sint (drop (unat Layer1Size) weights)))"
proof -
  define h where "h = unat Layer1Size"
  have l: "length us = h" "length them = h" "length weights = h * 2"
    using assms by (simp_all add: h_def)
  have t: "length (take h weights) = h" and d: "length (drop h weights) = h"
    using l by simp_all
  have 1: "spec_dot (map spec_clipped us) (map sint (take h weights)) =
           sum_list (map (\<lambda>i. spec_clipped (us ! i) * sint (weights ! i)) [0..<h])"
    unfolding spec_dot_nth [OF l(1) t]
    by (rule arg_cong [where f = sum_list], rule map_cong) simp_all
  have 2: "spec_dot (map spec_clipped them) (map sint (drop h weights)) =
           sum_list (map (\<lambda>i. spec_clipped (them ! i) * sint (weights ! (h + i))) [0..<h])"
    unfolding spec_dot_nth [OF l(2) d]
    using l by (intro arg_cong [where f = sum_list] map_cong) simp_all
  have "forward us them weights =
          sum_list (map (\<lambda>i. word_of_int (spec_clipped (us ! i) * sint (weights ! i))) [0..<h]) +
          sum_list (map (\<lambda>i. word_of_int (spec_clipped (them ! i) * sint (weights ! (h + i)))) [0..<h])"
    by (simp only: forward_def h_def [symmetric] Let_def fold_plus product_term add_0)
  then show ?thesis
    unfolding h_def [symmetric] 1 2 sum_list_word_of_int by simp
qed

lemma sdiv_Q_range:
  assumes "- (2 ^ 31) \<le> (a :: int)" "a < 2 ^ 31"
  shows "- (2 ^ 31) \<le> a sdiv 16320 \<and> a sdiv 16320 < 2 ^ 31"
proof (cases "0 \<le> a")
  case True
  then have "a sdiv 16320 = a div 16320"
    by (simp add: signed_divide_int_def sgn_if)
  moreover have "0 \<le> a div 16320" "a div 16320 \<le> a"
    using True by (simp_all add: div_le_dividend pos_imp_zdiv_nonneg_iff)
  ultimately show ?thesis using assms by simp
next
  case False
  then have "a sdiv 16320 = - ((- a) div 16320)"
    by (simp add: signed_divide_int_def sgn_if)
  moreover have "0 \<le> (- a) div 16320" "(- a) div 16320 \<le> - a"
    using False by (simp_all add: pos_imp_zdiv_nonneg_iff)
  ultimately show ?thesis using assms by simp
qed

lemma sint_sdiv32_Q: "sint (sdiv32 a Q) = sint a sdiv 16320"
proof -
  have "- (2 ^ 31) \<le> sint a" "sint a < 2 ^ 31"
    using sint_ge [of a] sint_lt [of a] by simp_all
  from sdiv_Q_range [OF this]
  have "signed_take_bit 31 (sint a sdiv 16320) = sint a sdiv 16320"
    by (simp add: signed_take_bit_int_eq_self)
  then show ?thesis
    by (simp add: sdiv32_def Q_def sint_sbintrunc')
qed

lemma sint_int32: "sint (word_of_int k :: int32) = signed_take_bit 31 k"
  by (simp add: sint_sbintrunc')

lemma evaluate_acc_spec:
  assumes "wf_Network net" "wf_Accumulator acc"
  shows "sint (evaluate_acc net acc stm) =
           signed_take_bit 31 (spec_output net acc stm * sint Scale) sdiv sint Q \<and>
         (- (2 ^ 31) \<le> spec_output net acc stm * sint Scale \<and>
          spec_output net acc stm * sint Scale < 2 ^ 31 \<longrightarrow>
            sint (evaluate_acc net acc stm) = spec_evaluate net acc stm)"
proof -
  have lb: "length (black acc) = unat Layer1Size" and lw: "length (white acc) = unat Layer1Size"
    using assms(2) by (simp_all add: wf_Accumulator_def)
  have lo: "length (outputWeights net) = unat Layer1Size * 2"
    using assms(1) by (simp add: wf_Network_def)
  define out where "out = (if stm = 0 then forward (black acc) (white acc) (outputWeights net)
         else forward (white acc) (black acc) (outputWeights net))"
  have e: "out + scast (outputBias net) = word_of_int (spec_output net acc stm)"
    by (simp add: out_def forward_eq [OF lb lw lo] forward_eq [OF lw lb lo] spec_output_def Let_def)
  have "evaluate_acc net acc stm = sdiv32 ((out + scast (outputBias net)) * Scale) Q"
    by (simp only: evaluate_acc_def Let_def out_def)
  also have "(out + scast (outputBias net)) * Scale = word_of_int (spec_output net acc stm * sint Scale)"
    by (simp only: e of_int_mult of_int_sint signed_scast_eq) simp
  finally have "evaluate_acc net acc stm = sdiv32 (word_of_int (spec_output net acc stm * sint Scale)) Q" .
  then have "sint (evaluate_acc net acc stm) =
      sint (word_of_int (spec_output net acc stm * sint Scale) :: int32) sdiv 16320"
    by (simp only: sint_sdiv32_Q)
  also have "sint (word_of_int (spec_output net acc stm * sint Scale) :: int32) =
      signed_take_bit 31 (spec_output net acc stm * sint Scale)"
    by (rule sint_int32)
  also have "(16320 :: int) = sint Q" by (simp add: Q_def)
  finally have main: "sint (evaluate_acc net acc stm) =
      signed_take_bit 31 (spec_output net acc stm * sint Scale) sdiv sint Q" .
  have "sint (evaluate_acc net acc stm) = spec_evaluate net acc stm"
    if "- (2 ^ 31) \<le> spec_output net acc stm * sint Scale \<and>
          spec_output net acc stm * sint Scale < 2 ^ 31"
    using that unfolding main spec_evaluate_def by (simp add: signed_take_bit_int_eq_self)
  with main show ?thesis by blast
qed

lemma wf_example_net: "wf_Network example_net"
  by (simp add: wf_Network_def example_net_def InputSize_def Layer1Size_def)

lemma wf_example_acc: "wf_Accumulator example_acc"
  by (simp add: wf_Accumulator_def example_acc_def Layer1Size_def)

lemma valid_white_pawn: "valid_piece 8"
  by (simp add: valid_piece_def getType_def)

lemma valid_black_knight: "valid_piece 1"
  by (simp add: valid_piece_def getType_def)

lemma valid_e2: "valid_square 12"
  by (simp add: valid_square_def)

lemma valid_e4: "valid_square 28"
  by (simp add: valid_square_def)

lemma example_spec_output: "spec_output example_net example_acc 0 = 391687"
  by (simp add: spec_output_def example_net_def example_acc_def Layer1Size_def spec_dot_def spec_clipped_def
      sum_list_replicate)

lemma wf_overflow_net: "wf_Network overflow_net"
  by (simp add: wf_Network_def overflow_net_def InputSize_def Layer1Size_def)

lemma wf_overflow_acc: "wf_Accumulator overflow_acc"
  by (simp add: wf_Accumulator_def overflow_acc_def Layer1Size_def)

lemma overflow_spec_output: "spec_output overflow_net overflow_acc 0 = 5483520"
  by (simp add: spec_output_def overflow_net_def overflow_acc_def Layer1Size_def spec_dot_def
      spec_clipped_def sum_list_replicate)

lemma overflow_reset:
  "reset overflow_net NnueState_new = \<lparr>m_accumulatorStack = [overflow_acc], m_curr = Some 0\<rparr>"
  using reset_eq [OF wf_overflow_net, of NnueState_new]
  by (simp add: overflow_net_def overflow_acc_def)

lemma addToAll_length: "addToAll input delta offset = Inr out \<Longrightarrow> length out = length input"
  by (cases "unat offset + length input \<le> length delta")
    (auto simp: addToAll_Inr, simp add: addToAll_def)

lemma subtractFromAll_length:
  "subtractFromAll input delta offset = Inr out \<Longrightarrow> length out = length input"
  by (cases "unat offset + length input \<le> length delta")
    (auto simp: subtractFromAll_Inr, simp add: subtractFromAll_def)

lemma subtractAndAddToAll_length:
  "subtractAndAddToAll input delta subOffset addOffset = Inr out \<Longrightarrow> length out = length input"
  by (cases "unat subOffset + length input \<le> length delta \<and> unat addOffset + length input \<le> length delta")
    (auto simp: subtractAndAddToAll_Inr, auto simp add: subtractAndAddToAll_def split: if_splits)

lemma bindE_Inr: "bindE m f = Inr y \<Longrightarrow> \<exists>x. m = Inr x \<and> f x = Inr y"
  by (cases m) (simp_all add: bindE_def)

lemma activateFeature_acc_wf:
  assumes "activateFeature_acc net acc piece sq = Inr a" "wf_Accumulator acc"
  shows "wf_Accumulator a"
proof -
  from assms(1) obtain bw b w where
    "addToAll (black acc) (featureWeights net) (fst bw * Layer1Size) = Inr b"
    "addToAll (white acc) (featureWeights net) (snd bw * Layer1Size) = Inr w"
    "a = acc\<lparr>black := b, white := w\<rparr>"
    unfolding activateFeature_acc_def
    by (auto dest!: bindE_Inr simp: case_prod_beta)
  with assms(2) show ?thesis
    by (auto simp: wf_Accumulator_def dest: addToAll_length)
qed

lemma deactivateFeature_acc_wf:
  assumes "deactivateFeature_acc net acc piece sq = Inr a" "wf_Accumulator acc"
  shows "wf_Accumulator a"
proof -
  from assms(1) obtain bw b w where
    "subtractFromAll (black acc) (featureWeights net) (fst bw * Layer1Size) = Inr b"
    "subtractFromAll (white acc) (featureWeights net) (snd bw * Layer1Size) = Inr w"
    "a = acc\<lparr>black := b, white := w\<rparr>"
    unfolding deactivateFeature_acc_def
    by (auto dest!: bindE_Inr simp: case_prod_beta)
  with assms(2) show ?thesis
    by (auto simp: wf_Accumulator_def dest: subtractFromAll_length)
qed

lemma moveFeature_acc_wf:
  assumes "moveFeature_acc net acc piece src dst = Inr a" "wf_Accumulator acc"
  shows "wf_Accumulator a"
proof -
  from assms(1) obtain s d b w where
    "subtractAndAddToAll (black acc) (featureWeights net) (fst s * Layer1Size) (fst d * Layer1Size) = Inr b"
    "subtractAndAddToAll (white acc) (featureWeights net) (snd s * Layer1Size) (snd d * Layer1Size) = Inr w"
    "a = acc\<lparr>black := b, white := w\<rparr>"
    unfolding moveFeature_acc_def
    by (auto dest!: bindE_Inr simp: case_prod_beta)
  with assms(2) show ?thesis
    by (auto simp: wf_Accumulator_def dest: subtractAndAddToAll_length)
qed

lemma on_top:
  assumes "active s"
  shows "bindE (assert_curr s) (\<lambda>c. bindE (f (m_accumulatorStack s ! c))
             (\<lambda>a. Inr (s\<lparr>m_accumulatorStack := (m_accumulatorStack s)[c := a]\<rparr>))) =
         bindE (f (last (m_accumulatorStack s)))
             (\<lambda>a. Inr (s\<lparr>m_accumulatorStack := butlast (m_accumulatorStack s) @ [a]\<rparr>))"
proof -
  have ne: "m_accumulatorStack s \<noteq> []" using assms by (simp add: active_def)
  then have "(m_accumulatorStack s)[length (m_accumulatorStack s) - 1 := a] =
             butlast (m_accumulatorStack s) @ [a]" for a
    by (cases "m_accumulatorStack s" rule: rev_cases) simp_all
  then show ?thesis
    using ne by (simp add: assert_curr_active [OF assms] bindE_def last_conv_nth split: sum.split)
qed

lemma on_top_Inr:
  assumes "bindE (assert_curr s) (\<lambda>c. bindE (f (m_accumulatorStack s ! c))
             (\<lambda>a. Inr (s\<lparr>m_accumulatorStack := (m_accumulatorStack s)[c := a]\<rparr>))) = Inr s'"
  shows "\<exists>a. f (last (m_accumulatorStack s)) = Inr a \<and>
             s' = s\<lparr>m_accumulatorStack := butlast (m_accumulatorStack s) @ [a]\<rparr>"
proof -
  from assms obtain c where "assert_curr s = Inr c"
    by (auto dest: bindE_Inr)
  then have "active s" by (simp add: assert_curr_Inr)
  from assms [unfolded on_top [OF this]] show ?thesis
    by (auto dest!: bindE_Inr)
qed

lemma top_replaced_active:
  "active s \<Longrightarrow> active (s\<lparr>m_accumulatorStack := butlast (m_accumulatorStack s) @ [a]\<rparr>)"
  by (simp add: active_def)

lemma reachable_wf:
  assumes "reachable net s" "wf_Network net"
  shows "list_all wf_Accumulator (m_accumulatorStack s)"
  using assms(1)
proof (induction rule: reachable.induct)
  case (after_reset s)
  show ?case
    using assms(2) by (simp add: reset_eq [OF assms(2)] wf_Accumulator_def wf_Network_def)
next
  case (after_push s s')
  from push_Inr [OF after_push(2)] after_push(3) show ?case
    by (cases "m_accumulatorStack s" rule: rev_cases) (auto simp: active_def)
next
  case (after_pop s s')
  from pop_Inr [OF after_pop(2)] have "1 < depth s" by simp
  from pop_deep [OF this] after_pop(2,3) show ?case
    by (cases "m_accumulatorStack s" rule: rev_cases) auto
next
  case (after_move s piece src dst s')
  from on_top_Inr [OF after_move(2) [unfolded moveFeature_def]] obtain a where
    a: "moveFeature_acc net (last (m_accumulatorStack s)) piece src dst = Inr a"
    and s': "s' = s\<lparr>m_accumulatorStack := butlast (m_accumulatorStack s) @ [a]\<rparr>"
    by blast
  have ne: "m_accumulatorStack s \<noteq> []"
    using reachable_active [OF after_move(1)] by (simp add: active_def)
  with after_move(3) have "wf_Accumulator (last (m_accumulatorStack s))"
    by (cases "m_accumulatorStack s" rule: rev_cases) auto
  from moveFeature_acc_wf [OF a this] after_move(3) ne show ?case
    unfolding s' by (cases "m_accumulatorStack s" rule: rev_cases) auto
next
  case (after_activate s piece sq s')
  from on_top_Inr [OF after_activate(2) [unfolded activateFeature_def]] obtain a where
    a: "activateFeature_acc net (last (m_accumulatorStack s)) piece sq = Inr a"
    and s': "s' = s\<lparr>m_accumulatorStack := butlast (m_accumulatorStack s) @ [a]\<rparr>"
    by blast
  have ne: "m_accumulatorStack s \<noteq> []"
    using reachable_active [OF after_activate(1)] by (simp add: active_def)
  with after_activate(3) have "wf_Accumulator (last (m_accumulatorStack s))"
    by (cases "m_accumulatorStack s" rule: rev_cases) auto
  from activateFeature_acc_wf [OF a this] after_activate(3) ne show ?case
    unfolding s' by (cases "m_accumulatorStack s" rule: rev_cases) auto
next
  case (after_deactivate s piece sq s')
  from on_top_Inr [OF after_deactivate(2) [unfolded deactivateFeature_def]] obtain a where
    a: "deactivateFeature_acc net (last (m_accumulatorStack s)) piece sq = Inr a"
    and s': "s' = s\<lparr>m_accumulatorStack := butlast (m_accumulatorStack s) @ [a]\<rparr>"
    by blast
  have ne: "m_accumulatorStack s \<noteq> []"
    using reachable_active [OF after_deactivate(1)] by (simp add: active_def)
  with after_deactivate(3) have "wf_Accumulator (last (m_accumulatorStack s))"
    by (cases "m_accumulatorStack s" rule: rev_cases) auto
  from deactivateFeature_acc_wf [OF a this] after_deactivate(3) ne show ?case
    unfolding s' by (cases "m_accumulatorStack s" rule: rev_cases) auto
next
  case (after_copy s s')
  then show ?case
    by (auto simp: NnueState_copy_def Let_def dest!: bindE_Inr)
qed

lemma reachable_top_wf:
  assumes "reachable net s" "wf_Network net"
  shows "wf_Accumulator (last (m_accumulatorStack s))"
proof -
  have "m_accumulatorStack s \<noteq> []"
    using reachable_active [OF assms(1)] by (simp add: active_def)
  with reachable_wf [OF assms] show ?thesis
    by (cases "m_accumulatorStack s" rule: rev_cases) auto
qed

lemma moveFeature_top:
  "active s \<Longrightarrow> moveFeature net s piece src dst =
     bindE (moveFeature_acc net (last (m_accumulatorStack s)) piece src dst)
       (\<lambda>a. Inr (s\<lparr>m_accumulatorStack := butlast (m_accumulatorStack s) @ [a]\<rparr>))"
  unfolding moveFeature_def by (rule on_top)

lemma activateFeature_top:
  "active s \<Longrightarrow> activateFeature net s piece sq =
     bindE (activateFeature_acc net (last (m_accumulatorStack s)) piece sq)
       (\<lambda>a. Inr (s\<lparr>m_accumulatorStack := butlast (m_accumulatorStack s) @ [a]\<rparr>))"
  unfolding activateFeature_def by (rule on_top)

lemma deactivateFeature_top:
  "active s \<Longrightarrow> deactivateFeature net s piece sq =
     bindE (deactivateFeature_acc net (last (m_accumulatorStack s)) piece sq)
       (\<lambda>a. Inr (s\<lparr>m_accumulatorStack := butlast (m_accumulatorStack s) @ [a]\<rparr>))"
  unfolding deactivateFeature_def by (rule on_top)

lemma top_restored:
  "active s \<Longrightarrow> s\<lparr>m_accumulatorStack := butlast (m_accumulatorStack s) @ [last (m_accumulatorStack s)]\<rparr> = s"
  by (simp add: active_def)

lemma activate_then_deactivate_state:
  assumes "wf_Network net" "reachable net s" "valid_piece p" "valid_square sq"
  shows "bindE (activateFeature net s p sq) (\<lambda>t. deactivateFeature net t p sq) = Inr s"
proof -
  have a: "active s" using assms(2) by (rule reachable_active)
  have wf: "wf_Accumulator (last (m_accumulatorStack s))"
    using assms(2,1) by (rule reachable_top_wf)
  from activate_then_deactivate_acc [OF assms(1) wf assms(3,4)] obtain a1 where
    1: "activateFeature_acc net (last (m_accumulatorStack s)) p sq = Inr a1" and
    2: "deactivateFeature_acc net a1 p sq = Inr (last (m_accumulatorStack s))"
    by (auto dest!: bindE_Inr)
  define s1 where "s1 = s\<lparr>m_accumulatorStack := butlast (m_accumulatorStack s) @ [a1]\<rparr>"
  have a1: "active s1" unfolding s1_def using a by (rule top_replaced_active)
  have "activateFeature net s p sq = Inr s1"
    by (simp add: activateFeature_top [OF a] 1 bindE_def s1_def)
  moreover have "deactivateFeature net s1 p sq = Inr s"
    unfolding deactivateFeature_top [OF a1]
    using 2 top_restored [OF a] by (simp add: s1_def bindE_def)
  ultimately show ?thesis by (simp add: bindE_def)
qed

lemma moveFeature_fused_state:
  assumes "wf_Network net" "reachable net s" "valid_piece p" "valid_square src" "valid_square dst"
  shows "\<exists>s'. moveFeature net s p src dst = Inr s' \<and>
           bindE (deactivateFeature net s p src) (\<lambda>t. activateFeature net t p dst) = Inr s'"
proof -
  have a: "active s" using assms(2) by (rule reachable_active)
  have wf: "wf_Accumulator (last (m_accumulatorStack s))"
    using assms(2,1) by (rule reachable_top_wf)
  from moveFeature_fused_acc [OF assms(1) wf assms(3,4,5)] obtain a2 a1 where
    m: "moveFeature_acc net (last (m_accumulatorStack s)) p src dst = Inr a2" and
    1: "deactivateFeature_acc net (last (m_accumulatorStack s)) p src = Inr a1" and
    2: "activateFeature_acc net a1 p dst = Inr a2"
    by (auto dest!: bindE_Inr)
  define s1 where "s1 = s\<lparr>m_accumulatorStack := butlast (m_accumulatorStack s) @ [a1]\<rparr>"
  define s2 where "s2 = s\<lparr>m_accumulatorStack := butlast (m_accumulatorStack s) @ [a2]\<rparr>"
  have a1: "active s1" unfolding s1_def using a by (rule top_replaced_active)
  have "moveFeature net s p src dst = Inr s2"
    by (simp add: moveFeature_top [OF a] m bindE_def s2_def)
  moreover have "deactivateFeature net s p src = Inr s1"
    by (simp add: deactivateFeature_top [OF a] 1 bindE_def s1_def)
  moreover have "activateFeature net s1 p dst = Inr s2"
    unfolding activateFeature_top [OF a1]
    using 2 by (simp add: s1_def s2_def bindE_def)
  ultimately show ?thesis by (simp add: bindE_def)
qed

lemma moveFeature_same_square_state:
  assumes "wf_Network net" "reachable net s" "valid_piece p" "valid_square sq"
  shows "moveFeature net s p sq sq = Inr s"
proof -
  have a: "active s" using assms(2) by (rule reachable_active)
  have wf: "wf_Accumulator (last (m_accumulatorStack s))"
    using assms(2,1) by (rule reachable_top_wf)
  show ?thesis
    unfolding moveFeature_top [OF a]
    using moveFeature_same_square_acc [OF assms(1) wf assms(3,4)] top_restored [OF a]
    by (simp add: bindE_def)
qed

lemma evaluate_top:
  "active s \<Longrightarrow> evaluate net s stm = Inr (evaluate_acc net (last (m_accumulatorStack s)) stm)"
  by (simp add: evaluate_def assert_curr_active bindE_def last_conv_nth active_def)

section \<open>The claims\<close>

text \<open>
  C1 as the specification words it (colour bit 1 for white, used by the white index, and one
  minus it by the black index) fails on the white pawn (piece 8) on a1 (square 0):
  \<^verbatim>\<open>featureIndices\<close> returns the black index 440 and the white index 0, where the
  specification's formulas give 56 and 384.
\<close>

theorem featureIndices_spec_counterexample:
  "valid_piece 8 \<and> valid_square 0 \<and> is_white 8 \<and>
   featureIndices 8 0 = Inr (440, 0) \<and> spec_blackIdx 8 0 = 56 \<and> spec_whiteIdx 8 0 = 384 \<and>
   (unat (440 :: uint32), unat (0 :: uint32)) \<noteq> (spec_blackIdx 8 0, spec_whiteIdx 8 0)"
  by (simp add: featureIndices_def None_piece_def getType_def getColor_def ColorStride_def
      PieceStride_def spec_blackIdx_def spec_whiteIdx_def is_white_def valid_piece_def
      valid_square_def)

text \<open>
  C1, amended: for every piece whose low three bits are a piece type 0..5 and whose next bit
  is the colour (set for white), and every square 0..63, \<^verbatim>\<open>featureIndices\<close> returns the
  white-perspective index (0 if the piece is white, else 1) * 384 + type * 64 + square and
  the black-perspective index (1 if the piece is white, else 0) * 384 + type * 64 +
  (square XOR 56); none of the sums wraps.
\<close>

theorem featureIndices_perspective:
  assumes "valid_piece piece" "valid_square sq"
  shows "\<exists>blackIdx whiteIdx. featureIndices piece sq = Inr (blackIdx, whiteIdx) \<and>
           unat whiteIdx = (if is_white piece then 0 else 1) * 384 + unat (getType piece) * 64 + unat sq \<and>
           unat blackIdx = (if is_white piece then 1 else 0) * 384 + unat (getType piece) * 64 + unat (sq XOR 56)"
proof -
  have t: "unat (getType piece) \<le> 5" using assms(1) by (rule getType_le)
  have s: "unat sq < 64" using assms(2) by (simp add: valid_square_def word_less_nat_alt)
  have x: "unat (sq XOR 56) < 64" using assms(2) by (rule sq_xor_lt)
  show ?thesis
  proof (cases "is_white piece")
    case True
    then have "featureIndices piece sq =
        Inr (384 + getType piece * 64 + (sq XOR 56), getType piece * 64 + sq)"
      using featureIndices_valid [OF assms] by simp
    with True show ?thesis
      by (simp add: index_unat [OF t s] index_unat [OF t x])
  next
    case False
    then have "featureIndices piece sq =
        Inr (getType piece * 64 + (sq XOR 56), 384 + getType piece * 64 + sq)"
      using featureIndices_valid [OF assms] by simp
    with False show ?thesis
      by (simp add: index_unat [OF t s] index_unat [OF t x])
  qed
qed

text \<open>The white knight (piece 9) on e2 (square 12): white index 76, black index 500.\<close>

theorem featureIndices_perspective_witness:
  "valid_piece 9 \<and> valid_square 12 \<and>
   (\<exists>blackIdx whiteIdx. featureIndices 9 12 = Inr (blackIdx, whiteIdx) \<and>
      unat whiteIdx = 76 \<and> unat blackIdx = 500)"
  using featureIndices_perspective [of 9 12]
  by (simp add: valid_piece_def valid_square_def getType_def is_white_def)

text \<open>
  C2: for every accumulator, every valid piece and every pair of valid squares,
  \<^verbatim>\<open>moveFeature(p, src, dst)\<close> returns, and the accumulator it produces is equal, 16-bit
  element by element, to the one produced by \<^verbatim>\<open>deactivateFeature(p, src)\<close> followed by
  \<^verbatim>\<open>activateFeature(p, dst)\<close>. The squares need not differ. First for the static
  functions on any accumulator of the right size, then for the member functions in any
  reachable state, where the whole resulting states are equal.
\<close>

theorem moveFeature_fused:
  assumes "wf_Network net" "valid_piece p" "valid_square src" "valid_square dst"
  shows "(wf_Accumulator acc \<longrightarrow>
            (\<exists>a. moveFeature_acc net acc p src dst = Inr a \<and>
               bindE (deactivateFeature_acc net acc p src)
                 (\<lambda>a'. activateFeature_acc net a' p dst) = Inr a)) \<and>
         (reachable net s \<longrightarrow>
            (\<exists>s'. moveFeature net s p src dst = Inr s' \<and>
               bindE (deactivateFeature net s p src) (\<lambda>t. activateFeature net t p dst) = Inr s'))"
proof (intro conjI impI)
  assume "wf_Accumulator acc"
  with assms
  show "\<exists>a. moveFeature_acc net acc p src dst = Inr a \<and>
          bindE (deactivateFeature_acc net acc p src) (\<lambda>a'. activateFeature_acc net a' p dst) = Inr a"
    by (simp add: moveFeature_fused_acc)
next
  assume "reachable net s"
  with assms
  show "\<exists>s'. moveFeature net s p src dst = Inr s' \<and>
          bindE (deactivateFeature net s p src) (\<lambda>t. activateFeature net t p dst) = Inr s'"
    by (simp add: moveFeature_fused_state)
qed

text \<open>The white pawn from e2 to e4 on the example accumulator.\<close>

theorem moveFeature_fused_witness:
  "wf_Network example_net \<and> valid_piece 8 \<and> valid_square 12 \<and> valid_square 28 \<and>
   wf_Accumulator example_acc \<and> reachable example_net (reset example_net NnueState_new) \<and>
   (\<exists>a. moveFeature_acc example_net example_acc 8 12 28 = Inr a \<and>
      bindE (deactivateFeature_acc example_net example_acc 8 12)
        (\<lambda>a'. activateFeature_acc example_net a' 8 28) = Inr a) \<and>
   (\<exists>s'. moveFeature example_net (reset example_net NnueState_new) 8 12 28 = Inr s' \<and>
      bindE (deactivateFeature example_net (reset example_net NnueState_new) 8 12)
        (\<lambda>t. activateFeature example_net t 8 28) = Inr s')"
  using moveFeature_fused [OF wf_example_net valid_white_pawn valid_e2 valid_e4,
      of example_acc "reset example_net NnueState_new"]
    wf_example_net wf_example_acc valid_white_pawn valid_e2 valid_e4
    reachable.after_reset [of example_net NnueState_new]
  by simp

text \<open>
  C3 as stated, with the sum rescaled by \<open>Scale\<close> over \<open>Q\<close> as an integer, fails where the
  product with \<open>Scale\<close> leaves 32 bits. After \<^verbatim>\<open>reset()\<close> alone on a network with all
  biases 255, all output weights 14 and output bias 0, the sum is 5483520 and its product
  with 400 is 2193408000; \<^verbatim>\<open>evaluate(0)\<close> returns -128772, where the claim's formula
  gives 134400.
\<close>

theorem evaluate_overflow_counterexample:
  "wf_Network overflow_net \<and> wf_Accumulator overflow_acc \<and>
   reset overflow_net NnueState_new = \<lparr>m_accumulatorStack = [overflow_acc], m_curr = Some 0\<rparr> \<and>
   evaluate overflow_net (reset overflow_net NnueState_new) 0 =
     Inr (evaluate_acc overflow_net overflow_acc 0) \<and>
   sint (evaluate_acc overflow_net overflow_acc 0) = - 128772 \<and>
   spec_evaluate overflow_net overflow_acc 0 = 134400 \<and>
   sint (evaluate_acc overflow_net overflow_acc 0) \<noteq> spec_evaluate overflow_net overflow_acc 0"
proof -
  have e: "evaluate overflow_net (reset overflow_net NnueState_new) 0 =
      Inr (evaluate_acc overflow_net overflow_acc 0)"
    by (simp add: overflow_reset evaluate_def assert_curr_def back_ptr_def bindE_def)
  have "sint (evaluate_acc overflow_net overflow_acc 0) =
      signed_take_bit 31 (spec_output overflow_net overflow_acc 0 * sint Scale) sdiv sint Q"
    using evaluate_acc_spec [OF wf_overflow_net wf_overflow_acc, of 0] by (rule conjunct1)
  also have "spec_output overflow_net overflow_acc 0 * sint Scale = 2193408000"
    by (simp add: overflow_spec_output Scale_def)
  also have "signed_take_bit 31 (2193408000 :: int) = - 2101559296"
    by (simp add: signed_take_bit_eq_take_bit_shift take_bit_eq_mod)
  also have "(- 2101559296 :: int) sdiv sint Q = - 128772"
    by (simp add: Q_def signed_divide_int_def)
  finally have v: "sint (evaluate_acc overflow_net overflow_acc 0) = - 128772" .
  have s: "spec_evaluate overflow_net overflow_acc 0 = 134400"
    by (simp add: spec_evaluate_def overflow_spec_output Scale_def Q_def signed_divide_int_def)
  show ?thesis
    using e v s wf_overflow_net wf_overflow_acc overflow_reset by simp
qed

text \<open>
  C3, amended: for every accumulator and side-to-move flag, \<^verbatim>\<open>evaluate\<close> takes the black
  vector as us when \<open>stm = 0\<close> and the white vector otherwise, clamps every element of both
  vectors to 0..255, adds the dot product of us with the first half of the output weights,
  the dot product of them with the second half and the output bias, multiplies by
  \<open>Scale\<close> in 32-bit two's complement arithmetic (the product wraps around) and divides by
  \<open>Q\<close>, truncating towards zero. Whenever the exact product fits 32 bits, the score is the
  exact \<open>spec_evaluate\<close>. In a reachable state the member function passes its assertion
  and returns the score of the current accumulator; it returns the score only, so there
  is no state to change.
\<close>

theorem evaluate_spec:
  assumes "wf_Network net"
  shows "(wf_Accumulator acc \<longrightarrow>
            sint (evaluate_acc net acc stm) =
              signed_take_bit 31 (spec_output net acc stm * sint Scale) sdiv sint Q \<and>
            (- (2 ^ 31) \<le> spec_output net acc stm * sint Scale \<and>
             spec_output net acc stm * sint Scale < 2 ^ 31 \<longrightarrow>
               sint (evaluate_acc net acc stm) = spec_evaluate net acc stm)) \<and>
         (reachable net s \<longrightarrow>
            wf_Accumulator (last (m_accumulatorStack s)) \<and>
            evaluate net s stm = Inr (evaluate_acc net (last (m_accumulatorStack s)) stm))"
proof (intro conjI impI)
  assume wf: "wf_Accumulator acc"
  from evaluate_acc_spec [OF assms wf, of stm]
  show "sint (evaluate_acc net acc stm) =
          signed_take_bit 31 (spec_output net acc stm * sint Scale) sdiv sint Q"
    by (rule conjunct1)
  assume "- (2 ^ 31) \<le> spec_output net acc stm * sint Scale \<and>
          spec_output net acc stm * sint Scale < 2 ^ 31"
  with evaluate_acc_spec [OF assms wf, of stm]
  show "sint (evaluate_acc net acc stm) = spec_evaluate net acc stm"
    by blast
next
  assume r: "reachable net s"
  from r assms show "wf_Accumulator (last (m_accumulatorStack s))"
    by (rule reachable_top_wf)
  from reachable_active [OF r]
  show "evaluate net s stm = Inr (evaluate_acc net (last (m_accumulatorStack s)) stm)"
    by (rule evaluate_top)
qed

text \<open>Black to move on the example accumulator: the score is 9600.\<close>

theorem evaluate_spec_witness:
  "wf_Network example_net \<and> wf_Accumulator example_acc \<and>
   - (2 ^ 31) \<le> spec_output example_net example_acc 0 * sint Scale \<and>
   spec_output example_net example_acc 0 * sint Scale < 2 ^ 31 \<and>
   sint (evaluate_acc example_net example_acc 0) = spec_evaluate example_net example_acc 0 \<and>
   spec_evaluate example_net example_acc 0 = 9600 \<and>
   reachable example_net (reset example_net NnueState_new) \<and>
   evaluate example_net (reset example_net NnueState_new) 0 =
     Inr (evaluate_acc example_net
            (last (m_accumulatorStack (reset example_net NnueState_new))) 0)"
  using evaluate_spec [OF wf_example_net, of example_acc 0 "reset example_net NnueState_new"]
    wf_example_net wf_example_acc reachable.after_reset [of example_net NnueState_new]
  by (simp add: example_spec_output Scale_def spec_evaluate_def Q_def signed_divide_int_def)

text \<open>
  C4: in every reachable state, at whatever depth, \<^verbatim>\<open>push()\<close> returns a state one deeper
  and \<^verbatim>\<open>pop()\<close> on that state returns the state before the push: the whole stack and the
  current element are as they were.
\<close>

theorem push_pop_round_trip:
  assumes "reachable net s"
  shows "\<exists>s1. push s = Inr s1 \<and> depth s1 = depth s + 1 \<and> pop s1 = Inr s"
proof -
  have a: "active s" using assms by (rule reachable_active)
  define s1 where "s1 = s\<lparr>m_accumulatorStack := m_accumulatorStack s @ [last (m_accumulatorStack s)],
                         m_curr := Some (length (m_accumulatorStack s))\<rparr>"
  have p: "push s = Inr s1" unfolding s1_def by (rule push_active [OF a])
  have d: "depth s1 = depth s + 1" by (simp add: s1_def depth_def)
  have "1 < depth s1" using a d by (simp add: active_def depth_def)
  then have "pop s1 = Inr (s1\<lparr>m_accumulatorStack := butlast (m_accumulatorStack s1), m_curr := Some (depth s1 - 2)\<rparr>)"
    by (rule pop_deep)
  also have "s1\<lparr>m_accumulatorStack := butlast (m_accumulatorStack s1), m_curr := Some (depth s1 - 2)\<rparr> = s"
    using a by (simp add: s1_def depth_def active_def)
  finally show ?thesis using p d by blast
qed

text \<open>The state after a reset.\<close>

theorem push_pop_round_trip_witness:
  "reachable example_net (reset example_net NnueState_new) \<and>
   (\<exists>s1. push (reset example_net NnueState_new) = Inr s1 \<and>
      depth s1 = depth (reset example_net NnueState_new) + 1 \<and>
      pop s1 = Inr (reset example_net NnueState_new))"
  using push_pop_round_trip [of example_net "reset example_net NnueState_new"]
    reachable.after_reset [of example_net NnueState_new]
  by simp

text \<open>
  C5: for every accumulator, valid piece and valid square, \<^verbatim>\<open>activateFeature(p, s)\<close>
  followed by \<^verbatim>\<open>deactivateFeature(p, s)\<close> returns the accumulator it started from, 16-bit
  element by element, with the wrap-around of the 16-bit sums and differences. First for
  the static functions on any accumulator of the right size, then for the member functions
  in any reachable state, which is restored as a whole.
\<close>

theorem activate_then_deactivate:
  assumes "wf_Network net" "valid_piece p" "valid_square sq"
  shows "(wf_Accumulator acc \<longrightarrow>
            bindE (activateFeature_acc net acc p sq) (\<lambda>a. deactivateFeature_acc net a p sq) =
              Inr acc) \<and>
         (reachable net s \<longrightarrow>
            bindE (activateFeature net s p sq) (\<lambda>t. deactivateFeature net t p sq) = Inr s)"
proof (intro conjI impI)
  assume "wf_Accumulator acc"
  with assms
  show "bindE (activateFeature_acc net acc p sq) (\<lambda>a. deactivateFeature_acc net a p sq) = Inr acc"
    by (simp add: activate_then_deactivate_acc)
next
  assume "reachable net s"
  with assms
  show "bindE (activateFeature net s p sq) (\<lambda>t. deactivateFeature net t p sq) = Inr s"
    by (simp add: activate_then_deactivate_state)
qed

text \<open>The white pawn on e2 and the example accumulator.\<close>

theorem activate_then_deactivate_witness:
  "wf_Network example_net \<and> valid_piece 8 \<and> valid_square 12 \<and>
   wf_Accumulator example_acc \<and> reachable example_net (reset example_net NnueState_new) \<and>
   bindE (activateFeature_acc example_net example_acc 8 12)
     (\<lambda>a. deactivateFeature_acc example_net a 8 12) = Inr example_acc \<and>
   bindE (activateFeature example_net (reset example_net NnueState_new) 8 12)
     (\<lambda>t. deactivateFeature example_net t 8 12) = Inr (reset example_net NnueState_new)"
  using activate_then_deactivate [OF wf_example_net valid_white_pawn valid_e2,
      of example_acc "reset example_net NnueState_new"]
    wf_example_net wf_example_acc valid_white_pawn valid_e2
    reachable.after_reset [of example_net NnueState_new]
  by simp

text \<open>
  C6: the depth is 1 right after \<^verbatim>\<open>reset()\<close>; a \<^verbatim>\<open>push()\<close> that returns has added exactly
  one element and a \<^verbatim>\<open>pop()\<close> that returns has removed exactly one; and along every
  sequence of reset, push and pop that starts with a reset and respects the precondition of
  pop, every call returns and after each of them the depth is 1 plus the pushes minus the
  pops since the last reset, and at least 1.
\<close>

theorem depth_invariant:
  assumes "spec_pops_allowed 1 ops"
  shows "depth (reset net s) = 1 \<and>
         (\<forall>t t'. push t = Inr t' \<longrightarrow> depth t' = depth t + 1) \<and>
         (\<forall>t t'. pop t = Inr t' \<longrightarrow> depth t' + 1 = depth t) \<and>
         (\<forall>n \<le> length ops. \<exists>s'. run net (Reset # take n ops) s = Inr s' \<and>
              int (depth s') = spec_depth (take n ops) \<and> 1 \<le> depth s')"
proof (intro conjI allI impI)
  show "depth (reset net s) = 1" by (rule depth_reset)
next
  fix t t' assume "push t = Inr t'"
  from push_Inr [OF this] show "depth t' = depth t + 1" by (simp add: depth_def)
next
  fix t t' assume "pop t = Inr t'"
  from pop_Inr [OF this] show "depth t' + 1 = depth t" by simp
next
  fix n assume "n \<le> length ops"
  have "spec_pops_allowed (depth (reset net s)) (take n ops)"
    using assms by (simp add: depth_reset spec_pops_allowed_take)
  from run_depth [OF this reset_active] obtain s' where
    r: "run net (take n ops) (reset net s) = Inr s'" and a: "active s'" and
    d: "int (depth s') = (if Reset \<in> set (take n ops) then spec_depth (take n ops)
          else int (depth (reset net s)) + int (count_list (take n ops) Push) - int (count_list (take n ops) Pop))"
    by blast
  have "int (depth s') = spec_depth (take n ops)"
    using d by (simp add: depth_reset spec_depth_no_reset)
  moreover have "run net (Reset # take n ops) s = Inr s'"
    using r by (simp add: bindE_def)
  ultimately show "\<exists>s'. run net (Reset # take n ops) s = Inr s' \<and>
              int (depth s') = spec_depth (take n ops) \<and> 1 \<le> depth s'"
    using active_depth [OF a] by blast
qed

text \<open>Reset, two pushes, a pop and a push: depth 3.\<close>

theorem depth_invariant_witness:
  "spec_pops_allowed 1 [Push, Push, Pop, Push] \<and>
   (\<exists>s'. run example_net (Reset # [Push, Push, Pop, Push]) NnueState_new = Inr s' \<and>
      int (depth s') = spec_depth [Push, Push, Pop, Push] \<and> 1 \<le> depth s') \<and>
   spec_depth [Push, Push, Pop, Push] = 3"
proof -
  have p: "spec_pops_allowed 1 [Push, Push, Pop, Push]" by simp
  have "take 4 [Push, Push, Pop, Push] = [Push, Push, Pop, Push]" by simp
  with depth_invariant [OF p, of example_net NnueState_new] p show ?thesis
    by (auto simp: spec_depth_def spec_since_reset_def)
qed

text \<open>
  C7 as stated fails: \<^verbatim>\<open>pop()\<close> on a stack of depth 1 is not stopped by an assertion. The
  function has none; it removes the only element and takes \<^verbatim>\<open>back()\<close> of the empty
  vector, for which C++ defines no behaviour.
\<close>

theorem pop_single_counterexample:
  "depth example_single = 1 \<and> pop example_single = Inl UndefinedBehaviour \<and>
   pop example_single \<noteq> Inl AssertionFailed"
  by (simp add: example_single_def depth_def pop_def back_ptr_def bindE_def)

text \<open>
  C7, amended: \<^verbatim>\<open>pop()\<close> checks nothing, so no call of it ends in a failed assertion. At a
  depth greater than 1 it removes the top element and makes the element below current; at
  depth 1 or 0 its behaviour is not defined. The precondition is the caller's to respect.
\<close>

theorem pop_unchecked:
  "pop s \<noteq> Inl AssertionFailed \<and>
   (1 < depth s \<longrightarrow>
      pop s = Inr (s\<lparr>m_accumulatorStack := butlast (m_accumulatorStack s),
                      m_curr := Some (depth s - 2)\<rparr>)) \<and>
   (depth s \<le> 1 \<longrightarrow> pop s = Inl UndefinedBehaviour)"
proof -
  have "pop s \<noteq> Inl AssertionFailed"
    using pop_deep [of s] pop_shallow [of s] by (cases "1 < depth s") simp_all
  then show ?thesis
    using pop_deep [of s] pop_shallow [of s] by simp
qed

text \<open>A stack of two elements and a stack of one.\<close>

theorem pop_unchecked_witness:
  "1 < depth example_double \<and>
   pop example_double = Inr \<lparr>m_accumulatorStack = [Accumulator_zero], m_curr = Some 0\<rparr> \<and>
   depth example_single \<le> 1 \<and> pop example_single = Inl UndefinedBehaviour"
  using pop_unchecked [of example_double] pop_unchecked [of example_single]
  by (simp add: example_double_def example_single_def depth_def)

text \<open>
  C8: after \<^verbatim>\<open>reset()\<close>, whatever the state before, the stack holds exactly one accumulator,
  whose black and white vectors are both the hidden-bias vector of the network, and it is
  the current one; \<^verbatim>\<open>Accumulator::init\<close> with the bias vector overwrites both vectors of
  any accumulator with it.
\<close>

theorem reset_bias:
  assumes "wf_Network net"
  shows "reset net s = \<lparr>m_accumulatorStack = [\<lparr>black = featureBiases net, white = featureBiases net\<rparr>],
                         m_curr = Some 0\<rparr> \<and>
         (\<forall>acc. wf_Accumulator acc \<longrightarrow>
            init acc (featureBiases net) = \<lparr>black = featureBiases net, white = featureBiases net\<rparr>)"
proof -
  have "length (featureBiases net) = unat Layer1Size"
    using assms by (simp add: wf_Network_def)
  then show ?thesis
    using reset_eq [OF assms, of s] by (simp add: init_bias)
qed

text \<open>Resetting a stack of two elements; initialising the example accumulator.\<close>

theorem reset_bias_witness:
  "wf_Network example_net \<and> wf_Accumulator example_acc \<and>
   reset example_net example_double =
     \<lparr>m_accumulatorStack = [\<lparr>black = replicate 768 5, white = replicate 768 5\<rparr>], m_curr = Some 0\<rparr> \<and>
   init example_acc (featureBiases example_net) = \<lparr>black = replicate 768 5, white = replicate 768 5\<rparr>"
  using reset_bias [OF wf_example_net, of example_double] wf_example_net wf_example_acc
  by (simp add: example_net_def)

text \<open>
  C9: for every valid piece and valid square both indices of \<^verbatim>\<open>featureIndices\<close> are less
  than 768, so the row that starts at index times \<open>Layer1Size\<close> ends within the 768 * 768
  feature weights, every index \<^verbatim>\<open>offset + i\<close> the loops read is in range, and the
  assertions of the three update functions hold: each of them returns, the static one on
  any accumulator of the right size and the member function in any reachable state.
\<close>

theorem feature_rows_in_bounds:
  assumes "wf_Network net" "valid_piece piece" "valid_square sq" "valid_square dst"
  shows "\<exists>blackIdx whiteIdx.
     featureIndices piece sq = Inr (blackIdx, whiteIdx) \<and>
     unat blackIdx < unat InputSize \<and> unat whiteIdx < unat InputSize \<and>
     unat (blackIdx * Layer1Size) + unat Layer1Size \<le> length (featureWeights net) \<and>
     unat (whiteIdx * Layer1Size) + unat Layer1Size \<le> length (featureWeights net) \<and>
     (\<forall>i < unat Layer1Size.
        unat (blackIdx * Layer1Size + word_of_nat i) < length (featureWeights net) \<and>
        unat (whiteIdx * Layer1Size + word_of_nat i) < length (featureWeights net)) \<and>
     (wf_Accumulator acc \<longrightarrow>
        (\<exists>a. activateFeature_acc net acc piece sq = Inr a) \<and>
        (\<exists>a. deactivateFeature_acc net acc piece sq = Inr a) \<and>
        (\<exists>a. moveFeature_acc net acc piece sq dst = Inr a)) \<and>
     (reachable net s \<longrightarrow>
        (\<exists>t. activateFeature net s piece sq = Inr t) \<and>
        (\<exists>t. deactivateFeature net s piece sq = Inr t) \<and>
        (\<exists>t. moveFeature net s piece sq dst = Inr t))"
proof -
  from featureIndices_lt [OF assms(2,3)] obtain b w where
    fi: "featureIndices piece sq = Inr (b, w)" and b: "unat b < 768" and w: "unat w < 768"
    by blast
  from featureIndices_lt [OF assms(2,4)] obtain bd wd where
    fd: "featureIndices piece dst = Inr (bd, wd)" and bd: "unat bd < 768" and wd: "unat wd < 768"
    by blast
  have len: "length (featureWeights net) = 768 * 768"
    using assms(1) by (simp add: wf_Network_def InputSize_def Layer1Size_def)
  have rb: "unat (b * Layer1Size) + unat Layer1Size \<le> length (featureWeights net)"
    using row_offset [OF b] b len by (simp add: Layer1Size_def)
  have rw: "unat (w * Layer1Size) + unat Layer1Size \<le> length (featureWeights net)"
    using row_offset [OF w] w len by (simp add: Layer1Size_def)
  have ib: "unat (b * Layer1Size + word_of_nat i) < length (featureWeights net)"
    if "i < unat Layer1Size" for i
    using that row_index [OF b, of i] b len by (simp add: Layer1Size_def)
  have iw: "unat (w * Layer1Size + word_of_nat i) < length (featureWeights net)"
    if "i < unat Layer1Size" for i
    using that row_index [OF w, of i] w len by (simp add: Layer1Size_def)
  have acc_level: "(\<exists>a. activateFeature_acc net acc piece sq = Inr a) \<and>
        (\<exists>a. deactivateFeature_acc net acc piece sq = Inr a) \<and>
        (\<exists>a. moveFeature_acc net acc piece sq dst = Inr a)" if wf: "wf_Accumulator acc"
    using activateFeature_acc_Inr [OF assms(1) wf fi b w]
      deactivateFeature_acc_Inr [OF assms(1) wf fi b w]
      moveFeature_acc_Inr [OF assms(1) wf fi b w fd bd wd]
    by blast
  have state_level: "(\<exists>t. activateFeature net s piece sq = Inr t) \<and>
        (\<exists>t. deactivateFeature net s piece sq = Inr t) \<and>
        (\<exists>t. moveFeature net s piece sq dst = Inr t)" if r: "reachable net s"
  proof -
    from activate_then_deactivate_state [OF assms(1) r assms(2,3)]
    have "\<exists>t. activateFeature net s piece sq = Inr t"
      by (auto dest!: bindE_Inr)
    moreover from moveFeature_fused_state [OF assms(1) r assms(2,3,4)]
    have "(\<exists>t. deactivateFeature net s piece sq = Inr t) \<and>
          (\<exists>t. moveFeature net s piece sq dst = Inr t)"
      by (auto dest!: bindE_Inr)
    ultimately show ?thesis by blast
  qed
  show ?thesis
    using fi b w rb rw ib iw acc_level state_level by (simp add: InputSize_def)
qed

text \<open>The white pawn on e2, and moving to e4.\<close>

theorem feature_rows_in_bounds_witness:
  "wf_Network example_net \<and> valid_piece 8 \<and> valid_square 12 \<and> valid_square 28 \<and>
   wf_Accumulator example_acc \<and> reachable example_net (reset example_net NnueState_new) \<and>
   (\<exists>a. activateFeature_acc example_net example_acc 8 12 = Inr a) \<and>
   (\<exists>a. deactivateFeature_acc example_net example_acc 8 12 = Inr a) \<and>
   (\<exists>a. moveFeature_acc example_net example_acc 8 12 28 = Inr a) \<and>
   (\<exists>t. activateFeature example_net (reset example_net NnueState_new) 8 12 = Inr t) \<and>
   (\<exists>t. deactivateFeature example_net (reset example_net NnueState_new) 8 12 = Inr t) \<and>
   (\<exists>t. moveFeature example_net (reset example_net NnueState_new) 8 12 28 = Inr t)"
  using feature_rows_in_bounds [OF wf_example_net valid_white_pawn valid_e2 valid_e4,
      of example_acc "reset example_net NnueState_new"]
    wf_example_net wf_example_acc valid_white_pawn valid_e2 valid_e4
    reachable.after_reset [of example_net NnueState_new]
  by blast

text \<open>
  C10: for every accumulator, valid piece and valid square, \<^verbatim>\<open>moveFeature(p, s, s)\<close>
  returns the accumulator unchanged, 16-bit element by element: the static function on any
  accumulator of the right size, the member function in any reachable state.
\<close>

theorem moveFeature_same_square:
  assumes "wf_Network net" "valid_piece p" "valid_square sq"
  shows "(wf_Accumulator acc \<longrightarrow> moveFeature_acc net acc p sq sq = Inr acc) \<and>
         (reachable net s \<longrightarrow> moveFeature net s p sq sq = Inr s)"
proof (intro conjI impI)
  assume "wf_Accumulator acc"
  with assms show "moveFeature_acc net acc p sq sq = Inr acc"
    by (simp add: moveFeature_same_square_acc)
next
  assume "reachable net s"
  with assms show "moveFeature net s p sq sq = Inr s"
    by (simp add: moveFeature_same_square_state)
qed

text \<open>The black knight staying on e4.\<close>

theorem moveFeature_same_square_witness:
  "wf_Network example_net \<and> valid_piece 1 \<and> valid_square 28 \<and>
   wf_Accumulator example_acc \<and> reachable example_net (reset example_net NnueState_new) \<and>
   moveFeature_acc example_net example_acc 1 28 28 = Inr example_acc \<and>
   moveFeature example_net (reset example_net NnueState_new) 1 28 28 =
     Inr (reset example_net NnueState_new)"
  using moveFeature_same_square [OF wf_example_net valid_black_knight valid_e4,
      of example_acc "reset example_net NnueState_new"]
    wf_example_net wf_example_acc valid_black_knight valid_e4
    reachable.after_reset [of example_net NnueState_new]
  by simp

end
